theory Spec2Isabelle
  imports
    Main
    "HOL-Library.Word"
    "HOL-Library.Monad_Syntax"
    "HOL-Library.Char_ord"
    "HOL-Library.List_Lexorder"
    "HOL-Library.AList"
    "HOL-Library.Multiset"
begin

unbundle bit_operations_syntax

section \<open>Python values\<close>

text \<open>
  The functions of \<^verbatim>\<open>verify_process_log.py\<close> and \<^verbatim>\<open>validate_examples.py\<close> work on
  what \<^verbatim>\<open>json.load\<close> returns: \<^verbatim>\<open>None\<close>, booleans, integers, strings, lists and
  dictionaries, without any static type. The model keeps that: one datatype of values,
  and every operation that Python would answer with an exception (\<^verbatim>\<open>AttributeError\<close>,
  \<^verbatim>\<open>TypeError\<close>, \<^verbatim>\<open>KeyError\<close>, \<^verbatim>\<open>IndexError\<close>) returns \<open>None\<close>.

  A dictionary is an association list in insertion order; Python dictionaries have
  distinct keys. A string is a HOL string: one \<open>char\<close> per code point, so code points
  from 256 on are outside the model; so are floating point numbers.
\<close>

datatype json =
    JNull
  | JBool bool
  | JInt int
  | JStr string
  | JArr "json list"
  | JObj "(string \<times> json) list"

text \<open>Truth value testing (\<^verbatim>\<open>if x\<close>, \<^verbatim>\<open>not x\<close>, \<^verbatim>\<open>x or y\<close>).\<close>

fun py_truthy :: "json \<Rightarrow> bool" where
  "py_truthy JNull = False"
| "py_truthy (JBool b) = b"
| "py_truthy (JInt n) = (n \<noteq> 0)"
| "py_truthy (JStr s) = (s \<noteq> [])"
| "py_truthy (JArr xs) = (xs \<noteq> [])"
| "py_truthy (JObj kvs) = (kvs \<noteq> [])"

definition py_or :: "json \<Rightarrow> json \<Rightarrow> json" where
  "py_or a b = (if py_truthy a then a else b)"

text \<open>\<^verbatim>\<open>d.get(key, default)\<close>: only a dictionary has the method.\<close>

fun py_get :: "json \<Rightarrow> string \<Rightarrow> json \<Rightarrow> json option" where
  "py_get (JObj kvs) k d = Some (case map_of kvs k of None \<Rightarrow> d | Some v \<Rightarrow> v)"
| "py_get _ k d = None"

text \<open>\<^verbatim>\<open>d.items()\<close>.\<close>

fun py_items :: "json \<Rightarrow> (string \<times> json) list option" where
  "py_items (JObj kvs) = Some kvs"
| "py_items _ = None"

text \<open>\<^verbatim>\<open>d[key] = value\<close> with a string key: an existing key keeps its place, a new one
  is appended. Lists and strings refuse a string index.\<close>

fun py_setitem :: "json \<Rightarrow> string \<Rightarrow> json \<Rightarrow> json option" where
  "py_setitem (JObj kvs) k v = Some (JObj (AList.update k v kvs))"
| "py_setitem _ k v = None"

text \<open>Iteration (\<^verbatim>\<open>for x in v\<close>): a list gives its elements, a string its characters, a
  dictionary its keys; the other values are not iterable.\<close>

fun py_iter :: "json \<Rightarrow> json list option" where
  "py_iter (JArr xs) = Some xs"
| "py_iter (JStr s) = Some (map (\<lambda>c. JStr [c]) s)"
| "py_iter (JObj kvs) = Some (map (\<lambda>kv. JStr (fst kv)) kvs)"
| "py_iter _ = None"

fun py_len :: "json \<Rightarrow> nat option" where
  "py_len (JArr xs) = Some (length xs)"
| "py_len (JStr s) = Some (length s)"
| "py_len (JObj kvs) = Some (length kvs)"
| "py_len _ = None"

text \<open>\<^verbatim>\<open>v[0]\<close> and \<^verbatim>\<open>v[-1]\<close>: \<^verbatim>\<open>IndexError\<close> on an empty list or string; a dictionary
  with string keys has neither key (\<^verbatim>\<open>KeyError\<close>).\<close>

fun py_first :: "json \<Rightarrow> json option" where
  "py_first (JArr xs) = (case xs of [] \<Rightarrow> None | x # _ \<Rightarrow> Some x)"
| "py_first (JStr s) = (case s of [] \<Rightarrow> None | c # _ \<Rightarrow> Some (JStr [c]))"
| "py_first _ = None"

fun py_last :: "json \<Rightarrow> json option" where
  "py_last (JArr xs) = (if xs = [] then None else Some (last xs))"
| "py_last (JStr s) = (if s = [] then None else Some (JStr [last s]))"
| "py_last _ = None"

text \<open>\<^verbatim>\<open>v[:16]\<close>: strings and lists can be sliced; a number is not subscriptable and a
  dictionary takes no slice as a key.\<close>

fun py_slice16 :: "json \<Rightarrow> json option" where
  "py_slice16 (JStr s) = Some (JStr (take 16 s))"
| "py_slice16 (JArr xs) = Some (JArr (take 16 xs))"
| "py_slice16 _ = None"

text \<open>\<^verbatim>\<open>s + v\<close> for a string \<open>s\<close>: \<^verbatim>\<open>TypeError\<close> unless \<open>v\<close> is a string.\<close>

fun py_str_add :: "string \<Rightarrow> json \<Rightarrow> string option" where
  "py_str_add s (JStr t) = Some (s @ t)"
| "py_str_add s _ = None"

text \<open>Equality \<^verbatim>\<open>==\<close>: \<^verbatim>\<open>True\<close> and \<^verbatim>\<open>False\<close> are the integers 1 and 0, lists are
  compared element by element, dictionaries key by key whatever their order.\<close>

fun py_eq :: "json \<Rightarrow> json \<Rightarrow> bool"
  and py_eq_list :: "json list \<Rightarrow> json list \<Rightarrow> bool"
  and py_eq_dict :: "(string \<times> json) list \<Rightarrow> (string \<times> json) list \<Rightarrow> bool"
where
  "py_eq JNull b = (b = JNull)"
| "py_eq (JBool x) b =
     (case b of JBool y \<Rightarrow> x = y | JInt n \<Rightarrow> (if x then 1 else 0) = n | _ \<Rightarrow> False)"
| "py_eq (JInt m) b =
     (case b of JBool y \<Rightarrow> m = (if y then 1 else 0) | JInt n \<Rightarrow> m = n | _ \<Rightarrow> False)"
| "py_eq (JStr s) b = (b = JStr s)"
| "py_eq (JArr xs) b = (case b of JArr ys \<Rightarrow> py_eq_list xs ys | _ \<Rightarrow> False)"
| "py_eq (JObj kvs) b =
     (case b of JObj kvs' \<Rightarrow> length kvs = length kvs' \<and> py_eq_dict kvs kvs' | _ \<Rightarrow> False)"
| "py_eq_list [] ys = (ys = [])"
| "py_eq_list (x # xs) ys = (case ys of [] \<Rightarrow> False | y # ys' \<Rightarrow> py_eq x y \<and> py_eq_list xs ys')"
| "py_eq_dict [] kvs' = True"
| "py_eq_dict (kv # kvs) kvs' =
     ((case map_of kvs' (fst kv) of None \<Rightarrow> False | Some w \<Rightarrow> py_eq (snd kv) w)
      \<and> py_eq_dict kvs kvs')"

definition py_ne :: "json \<Rightarrow> json \<Rightarrow> bool" where
  "py_ne a b = (\<not> py_eq a b)"

section \<open>Library functions: \<^verbatim>\<open>json.dumps\<close>, \<^verbatim>\<open>str.encode\<close>, \<^verbatim>\<open>hashlib.sha256\<close>\<close>

subsection \<open>\<^verbatim>\<open>json.dumps(v, separators=(",", ":"), sort_keys=True)\<close>\<close>

text \<open>
  The encoder of the standard library with its default \<^verbatim>\<open>ensure_ascii=True\<close>: inside a
  string the quote, the backslash and the control characters with a short escape take
  that escape; every other character outside the printable ASCII range \<open>0x20 .. 0x7E\<close>
  becomes \<^verbatim>\<open>\u00XX\<close> with lowercase hexadecimal digits. The item separator is a bare
  comma, the key separator a bare colon, and the items of a dictionary are sorted by key
  (strings compare by code point).
\<close>

definition hex_digit :: "nat \<Rightarrow> char" where
  "hex_digit n = ''0123456789abcdef'' ! n"

definition escape_char :: "char \<Rightarrow> string" where
  "escape_char c =
     (if c = CHR 0x22 then [CHR 0x5C, CHR 0x22]
      else if c = CHR 0x5C then [CHR 0x5C, CHR 0x5C]
      else if c = CHR 0x0A then [CHR 0x5C, CHR ''n'']
      else if c = CHR 0x0D then [CHR 0x5C, CHR ''r'']
      else if c = CHR 0x09 then [CHR 0x5C, CHR ''t'']
      else if c = CHR 0x08 then [CHR 0x5C, CHR ''b'']
      else if c = CHR 0x0C then [CHR 0x5C, CHR ''f'']
      else if 0x20 \<le> (of_char c :: nat) \<and> (of_char c :: nat) \<le> 0x7E then [c]
      else [CHR 0x5C, CHR ''u'', CHR ''0'', CHR ''0'',
            hex_digit ((of_char c :: nat) div 16), hex_digit ((of_char c :: nat) mod 16)])"

definition encode_string :: "string \<Rightarrow> string" where
  "encode_string s = [CHR 0x22] @ concat (map escape_char s) @ [CHR 0x22]"

definition digit_char :: "nat \<Rightarrow> char" where
  "digit_char n = ''0123456789'' ! n"

fun show_nat :: "nat \<Rightarrow> string" where
  "show_nat n = (if n < 10 then [digit_char n] else show_nat (n div 10) @ [digit_char (n mod 10)])"

declare show_nat.simps [simp del]

definition show_int :: "int \<Rightarrow> string" where
  "show_int i = (if i < 0 then ''-'' @ show_nat (nat (- i)) else show_nat (nat i))"

fun join_comma :: "string list \<Rightarrow> string" where
  "join_comma [] = []"
| "join_comma [x] = x"
| "join_comma (x # y # ys) = x @ '','' @ join_comma (y # ys)"

function json_dumps :: "json \<Rightarrow> string" where
  "json_dumps JNull = ''null''"
| "json_dumps (JBool b) = (if b then ''true'' else ''false'')"
| "json_dumps (JInt n) = show_int n"
| "json_dumps (JStr s) = encode_string s"
| "json_dumps (JArr xs) = ''['' @ join_comma (map json_dumps xs) @ '']''"
| "json_dumps (JObj kvs) =
     ''{'' @ join_comma (map (\<lambda>kv. encode_string (fst kv) @ '':'' @ json_dumps (snd kv))
                             (sort_key fst kvs)) @ ''}''"
  by pat_completeness auto
termination
proof (relation "measure size")
  show "wf (measure (size :: json \<Rightarrow> nat))" by simp
next
  fix xs :: "json list" and x
  assume "x \<in> set xs"
  then have "size x \<le> size_list size xs"
    by (rule size_list_estimation') simp
  then show "(x, JArr xs) \<in> measure size" by simp
next
  fix kvs :: "(string \<times> json) list" and kv
  assume "kv \<in> set (sort_key fst kvs)"
  then have "kv \<in> set kvs" by simp
  moreover have "size (snd kv) \<le> size_prod (\<lambda>_. 0) size kv"
    by (cases kv) simp
  ultimately have "size (snd kv) \<le> size_list (size_prod (\<lambda>_. 0) size) kvs"
    by (rule size_list_estimation')
  then show "(snd kv, JObj kvs) \<in> measure size" by simp
qed

subsection \<open>\<^verbatim>\<open>str.encode("utf-8")\<close>\<close>

type_synonym byte = "8 word"

definition utf8_char :: "char \<Rightarrow> byte list" where
  "utf8_char c =
     (let n = (of_char c :: nat)
      in if n < 128 then [of_nat n] else [of_nat (192 + n div 64), of_nat (128 + n mod 64)])"

definition encode_utf8 :: "string \<Rightarrow> byte list" where
  "encode_utf8 s = concat (map utf8_char s)"

subsection \<open>\<^verbatim>\<open>hashlib.sha256(bytes).hexdigest()\<close> (FIPS 180-4)\<close>

type_synonym w32 = "32 word"

definition rotr :: "nat \<Rightarrow> w32 \<Rightarrow> w32" where
  "rotr n x = drop_bit n x OR push_bit (32 - n) x"

definition Ch :: "w32 \<Rightarrow> w32 \<Rightarrow> w32 \<Rightarrow> w32" where
  "Ch x y z = (x AND y) XOR (NOT x AND z)"

definition Maj :: "w32 \<Rightarrow> w32 \<Rightarrow> w32 \<Rightarrow> w32" where
  "Maj x y z = (x AND y) XOR (x AND z) XOR (y AND z)"

definition Sigma0 :: "w32 \<Rightarrow> w32" where
  "Sigma0 x = rotr 2 x XOR rotr 13 x XOR rotr 22 x"

definition Sigma1 :: "w32 \<Rightarrow> w32" where
  "Sigma1 x = rotr 6 x XOR rotr 11 x XOR rotr 25 x"

definition sigma0 :: "w32 \<Rightarrow> w32" where
  "sigma0 x = rotr 7 x XOR rotr 18 x XOR drop_bit 3 x"

definition sigma1 :: "w32 \<Rightarrow> w32" where
  "sigma1 x = rotr 17 x XOR rotr 19 x XOR drop_bit 10 x"

text \<open>The round constants: the first 32 bits of the fractional parts of the cube roots
  of the first 64 primes, that is \<open>\<lfloor>p powr (1/3) * 2^32\<rfloor> mod 2^32\<close>, computed with
  the integer cube root of \<open>p * 2^96\<close>.\<close>

definition is_prime :: "int \<Rightarrow> bool" where
  "is_prime p = (2 \<le> p \<and> list_all (\<lambda>d. p mod d \<noteq> 0) [2..p - 1])"

definition first_primes :: "int list" where
  "first_primes = filter is_prime [2..311]"

function cube_root_between :: "int \<Rightarrow> int \<Rightarrow> int \<Rightarrow> int" where
  "cube_root_between n lo hi =
     (if hi \<le> lo + 1 then lo
      else let mid = (lo + hi) div 2
           in if mid ^ 3 \<le> n then cube_root_between n mid hi else cube_root_between n lo mid)"
  by pat_completeness auto
termination
  by (relation "measure (\<lambda>(n, lo, hi). nat (hi - lo))") auto

declare cube_root_between.simps [simp del]

definition cube_root :: "int \<Rightarrow> int" where
  "cube_root n = cube_root_between n 0 (n + 1)"

definition sha256_K :: "w32 list" where
  "sha256_K = map (\<lambda>p. word_of_int (cube_root (p * 2 ^ 96))) first_primes"

type_synonym sha_state = "w32 \<times> w32 \<times> w32 \<times> w32 \<times> w32 \<times> w32 \<times> w32 \<times> w32"

definition sha256_H0 :: sha_state where
  "sha256_H0 = (0x6a09e667, 0xbb67ae85, 0x3c6ef372, 0xa54ff53a,
                0x510e527f, 0x9b05688c, 0x1f83d9ab, 0x5be0cd19)"

definition be32 :: "byte \<Rightarrow> byte \<Rightarrow> byte \<Rightarrow> byte \<Rightarrow> w32" where
  "be32 a b c d = push_bit 24 (ucast a) OR push_bit 16 (ucast b) OR push_bit 8 (ucast c) OR ucast d"

fun words_of_bytes :: "byte list \<Rightarrow> w32 list" where
  "words_of_bytes (a # b # c # d # bs) = be32 a b c d # words_of_bytes bs"
| "words_of_bytes _ = []"

definition bytes_of_word :: "w32 \<Rightarrow> byte list" where
  "bytes_of_word w = [ucast (drop_bit 24 w), ucast (drop_bit 16 w), ucast (drop_bit 8 w), ucast w]"

definition be64 :: "nat \<Rightarrow> byte list" where
  "be64 n = map (\<lambda>i. ucast (drop_bit (8 * i) (of_nat n :: 64 word))) [7, 6, 5, 4, 3, 2, 1, 0]"

text \<open>Padding: the bit 1, then zero bits up to 56 modulo 64 bytes, then the length in
  bits as a 64-bit big-endian number.\<close>

definition pad :: "byte list \<Rightarrow> byte list" where
  "pad msg = msg @ [0x80] @ replicate ((119 - length msg mod 64) mod 64) 0 @ be64 (8 * length msg)"

fun schedule :: "nat \<Rightarrow> w32 list \<Rightarrow> w32 list" where
  "schedule 0 w = w"
| "schedule (Suc n) w =
     (let t = length w
      in schedule n (w @ [sigma1 (w ! (t - 2)) + w ! (t - 7) + sigma0 (w ! (t - 15)) + w ! (t - 16)]))"

fun sha_round :: "sha_state \<Rightarrow> w32 \<times> w32 \<Rightarrow> sha_state" where
  "sha_round (a, b, c, d, e, f, g, h) (k, w) =
     (let T1 = h + Sigma1 e + Ch e f g + k + w;
          T2 = Sigma0 a + Maj a b c
      in (T1 + T2, a, b, c, d + T1, e, f, g))"

fun add_state :: "sha_state \<Rightarrow> sha_state \<Rightarrow> sha_state" where
  "add_state (a, b, c, d, e, f, g, h) (a', b', c', d', e', f', g', h') =
     (a + a', b + b', c + c', d + d', e + e', f + f', g + g', h + h')"

definition compress :: "sha_state \<Rightarrow> byte list \<Rightarrow> sha_state" where
  "compress H block =
     add_state H (foldl sha_round H (zip sha256_K (schedule 48 (words_of_bytes block))))"

fun chunks :: "nat \<Rightarrow> byte list \<Rightarrow> byte list list" where
  "chunks 0 bs = []"
| "chunks (Suc n) bs = take 64 bs # chunks n (drop 64 bs)"

fun state_bytes :: "sha_state \<Rightarrow> byte list" where
  "state_bytes (a, b, c, d, e, f, g, h) = concat (map bytes_of_word [a, b, c, d, e, f, g, h])"

definition sha256 :: "byte list \<Rightarrow> byte list" where
  "sha256 msg =
     (let p = pad msg in state_bytes (foldl compress sha256_H0 (chunks (length p div 64) p)))"

definition hex_byte :: "byte \<Rightarrow> string" where
  "hex_byte b = [hex_digit (unat b div 16), hex_digit (unat b mod 16)]"

definition hexdigest :: "byte list \<Rightarrow> string" where
  "hexdigest bs = concat (map hex_byte bs)"

section \<open>\<^verbatim>\<open>compute_event_hash\<close>\<close>

text \<open>
  \<^verbatim>\<open>validate_examples.py\<close>, lines 62-70:
  \<^verbatim>\<open>payload = {k: v for k, v in event.items() if k != "_hash"}\<close>,
  \<^verbatim>\<open>payload_json = json.dumps(payload, separators=(",", ":"), sort_keys=True)\<close>,
  \<^verbatim>\<open>hash_input = payload_json + "|" + previous_hash + "|" + session_id\<close>,
  \<^verbatim>\<open>return hashlib.sha256(hash_input.encode("utf-8")).hexdigest()\<close>.
  \<^verbatim>\<open>event.items()\<close> needs a dictionary and the two concatenations need strings.
\<close>

definition compute_event_hash :: "json \<Rightarrow> json \<Rightarrow> json \<Rightarrow> string option" where
  "compute_event_hash event previous_hash session_id = do {
     items \<leftarrow> py_items event;
     let payload = JObj (filter (\<lambda>kv. fst kv \<noteq> ''_hash'') items);
     let payload_json = json_dumps payload;
     s1 \<leftarrow> py_str_add (payload_json @ ''|'') previous_hash;
     hash_input \<leftarrow> py_str_add (s1 @ ''|'') session_id;
     Some (hexdigest (sha256 (encode_utf8 hash_input)))
   }"

text \<open>\<^verbatim>\<open>verify_process_log.py\<close>, lines 5-11, has its own copy of the function, with the
  same body.\<close>

definition vpl_compute_event_hash :: "json \<Rightarrow> json \<Rightarrow> json \<Rightarrow> string option" where
  "vpl_compute_event_hash event previous_hash session_id = do {
     items \<leftarrow> py_items event;
     let payload = JObj (filter (\<lambda>kv. fst kv \<noteq> ''_hash'') items);
     let payload_json = json_dumps payload;
     s1 \<leftarrow> py_str_add (payload_json @ ''|'') previous_hash;
     hash_input \<leftarrow> py_str_add (s1 @ ''|'') session_id;
     Some (hexdigest (sha256 (encode_utf8 hash_input)))
   }"

section \<open>Findings\<close>

text \<open>
  The verifier and the runner build their report lines with \<^verbatim>\<open>ok(...)\<close>, \<^verbatim>\<open>fail(...)\<close> and
  \<^verbatim>\<open>warn(...)\<close>, which put a green check mark, a red cross or a yellow warning sign in
  front of the text. A line is modelled as that mark with a finding: which line it is,
  and the values the f-string formats into it.
\<close>

datatype mark = OkMark | FailMark | WarnMark

datatype finding =
    NoHashField nat json
  | HashMismatch nat json string json
  | HashIntact nat json json
  | HeadHashMismatch json json
  | HeadHashIntact json
  | NotAnchored
  | SchemaValid
  | SchemaErrors nat
  | SchemaViolation string
  | ChainIntact nat
  | NoEventsInLog
  | FirstNotSessionStart
  | LastNotSessionEnd
  | NotChronological
  | Chronological

type_synonym message = "mark \<times> finding"

definition ok :: "finding \<Rightarrow> message" where
  "ok t = (OkMark, t)"

definition fail :: "finding \<Rightarrow> message" where
  "fail t = (FailMark, t)"

definition warn :: "finding \<Rightarrow> message" where
  "warn t = (WarnMark, t)"

section \<open>\<^verbatim>\<open>verify_hash_chain\<close> (\<^verbatim>\<open>validate_examples.py\<close>, lines 73-118)\<close>

text \<open>
  The body of the loop \<^verbatim>\<open>for i, event in enumerate(events)\<close>; the loop state is
  \<open>(all_ok, messages, prev_hash)\<close>. \<open>HashMismatch i type expected stored\<close> is the line
  \<^verbatim>\<open>Event {i} ({type!r}): hash mismatch / expected / stored\<close>, \<open>NoHashField\<close> the line
  \<^verbatim>\<open>no _hash field\<close>, \<open>HashIntact\<close> the verbose line with \<^verbatim>\<open>stored[:16]\<close>.
\<close>

fun verify_events ::
  "json \<Rightarrow> bool \<Rightarrow> nat \<Rightarrow> json list \<Rightarrow> bool \<times> message list \<times> json
     \<Rightarrow> (bool \<times> message list \<times> json) option"
where
  "verify_events session_id verbose i [] st = Some st"
| "verify_events session_id verbose i (event # rest) (all_ok, messages, prev_hash) = do {
     stored \<leftarrow> py_get event ''_hash'' (JStr '''');
     expected \<leftarrow> compute_event_hash event prev_hash session_id;
     (all_ok', messages') \<leftarrow>
       (if \<not> py_truthy stored then do {
          ty \<leftarrow> py_get event ''type'' JNull;
          Some (all_ok, messages @ [warn (NoHashField i ty)])
        }
        else if py_ne stored (JStr expected) then do {
          ty \<leftarrow> py_get event ''type'' JNull;
          Some (False, messages @ [fail (HashMismatch i ty expected stored)])
        }
        else if verbose then do {
          ty \<leftarrow> py_get event ''type'' JNull;
          s16 \<leftarrow> py_slice16 stored;
          Some (all_ok, messages @ [ok (HashIntact i ty s16)])
        }
        else Some (all_ok, messages));
     verify_events session_id verbose (Suc i) rest
       (all_ok', messages', py_or stored (JStr expected))
   }"

definition verify_hash_chain :: "json \<Rightarrow> bool \<Rightarrow> (bool \<times> message list) option" where
  "verify_hash_chain log verbose = do {
     session_id \<leftarrow> py_get log ''session_id'' (JStr '''');
     events \<leftarrow> py_get log ''events'' (JArr []);
     evs \<leftarrow> py_iter events;
     (all_ok, messages, prev_hash) \<leftarrow>
       verify_events session_id verbose 0 evs (True, [], JStr '''');
     integrity \<leftarrow> py_get log ''_integrity'' (JObj []);
     head_hash \<leftarrow> py_get integrity ''head_hash'' (JStr '''');
     if py_truthy head_hash then
       if py_ne head_hash prev_hash then
         Some (False, messages @ [fail (HeadHashMismatch prev_hash head_hash)])
       else if verbose then do {
         h16 \<leftarrow> py_slice16 head_hash;
         Some (all_ok, messages @ [ok (HeadHashIntact h16)])
       }
       else Some (all_ok, messages)
     else Some (all_ok, messages @ [warn NotAnchored])
   }"

section \<open>\<^verbatim>\<open>add_hash_chain\<close> (\<^verbatim>\<open>validate_examples.py\<close>, lines 121-142)\<close>

text \<open>
  The loop \<^verbatim>\<open>for event in events\<close> writes \<^verbatim>\<open>event["_hash"] = h\<close> into each event in
  place; the model returns the updated events with the last hash. \<open>prev_hash\<close> is a
  string throughout: \<^verbatim>\<open>""\<close> at first, then a digest.
\<close>

fun add_events :: "json \<Rightarrow> json list \<Rightarrow> string \<Rightarrow> (json list \<times> string) option" where
  "add_events session_id [] prev_hash = Some ([], prev_hash)"
| "add_events session_id (event # rest) prev_hash = do {
     h \<leftarrow> compute_event_hash event (JStr prev_hash) session_id;
     event' \<leftarrow> py_setitem event ''_hash'' (JStr h);
     (rest', last_hash) \<leftarrow> add_events session_id rest h;
     Some (event' # rest', last_hash)
   }"

text \<open>The note of the \<^verbatim>\<open>_integrity\<close> block; its section sign is the code point \<open>0xA7\<close>.\<close>

definition integrity_note :: string where
  "integrity_note = ''Per-event chained hash. Verify using spec '' @ [CHR 0xA7] @ ''5.2.''"

text \<open>
  The events are changed in place, so the dictionary \<open>log\<close> shows them under its key
  \<^verbatim>\<open>"events"\<close> when that key holds the list that was walked. Without the key the walk
  is over the default \<^verbatim>\<open>[]\<close>, which \<open>log\<close> does not hold; a string or a dictionary under
  the key is walked but not changed (the loop body raises on its first item).
\<close>

definition store_events :: "json \<Rightarrow> json \<Rightarrow> json list \<Rightarrow> json option" where
  "store_events log events evs' =
     (case (log, events) of
        (JObj kvs, JArr _) \<Rightarrow>
          if map_of kvs ''events'' = None then Some log
          else py_setitem log ''events'' (JArr evs')
      | _ \<Rightarrow> Some log)"

definition add_hash_chain :: "json \<Rightarrow> json option" where
  "add_hash_chain log = do {
     session_id \<leftarrow> py_get log ''session_id'' (JStr '''');
     events \<leftarrow> py_get log ''events'' (JArr []);
     evs \<leftarrow> py_iter events;
     (evs', prev_hash) \<leftarrow> add_events session_id evs '''';
     log' \<leftarrow> store_events log events evs';
     n \<leftarrow> py_len events;
     py_setitem log' ''_integrity''
       (JObj [(''algorithm'', JStr ''SHA-256-CHAIN''),
              (''chain_length'', JInt (int n)),
              (''head_hash'', JStr prev_hash),
              (''session_id'', session_id),
              (''note'', JStr integrity_note)])
   }"

section \<open>\<^verbatim>\<open>verify_process_log\<close> (\<^verbatim>\<open>verify_process_log.py\<close>, lines 14-42)\<close>

text \<open>
  The second verifier returns one detail string and leaves the loop at the first
  mismatch. \<open>Inl\<close> is that early \<^verbatim>\<open>return\<close>, \<open>Inr\<close> the hash the loop ends with. The
  f-strings slice both hashes (\<^verbatim>\<open>[:16]\<close>), which raises on a value that cannot be
  sliced.
\<close>

datatype detail =
    MismatchAtEvent nat json string json
  | IntegrityMismatch json json
  | LogIntact nat

fun vpl_events ::
  "json \<Rightarrow> nat \<Rightarrow> json list \<Rightarrow> json \<Rightarrow> ((bool \<times> detail) + json) option"
where
  "vpl_events session_id i [] prev_hash = Some (Inr prev_hash)"
| "vpl_events session_id i (event # rest) prev_hash = do {
     stored_hash \<leftarrow> py_get event ''_hash'' (JStr '''');
     expected_hash \<leftarrow> vpl_compute_event_hash event prev_hash session_id;
     if py_truthy stored_hash \<and> py_ne stored_hash (JStr expected_hash) then do {
       ty \<leftarrow> py_get event ''type'' JNull;
       s16 \<leftarrow> py_slice16 stored_hash;
       Some (Inl (False, MismatchAtEvent i ty (take 16 expected_hash) s16))
     }
     else vpl_events session_id (Suc i) rest (py_or stored_hash (JStr expected_hash))
   }"

definition verify_process_log :: "json \<Rightarrow> (bool \<times> detail) option" where
  "verify_process_log log = do {
     session_id \<leftarrow> py_get log ''session_id'' (JStr '''');
     events \<leftarrow> py_get log ''events'' (JArr []);
     evs \<leftarrow> py_iter events;
     r \<leftarrow> vpl_events session_id 0 evs (JStr '''');
     case r of
       Inl early \<Rightarrow> Some early
     | Inr prev_hash \<Rightarrow> do {
         integrity \<leftarrow> py_get log ''_integrity'' (JObj []);
         head_hash \<leftarrow> py_get integrity ''head_hash'' (JStr '''');
         if py_truthy head_hash \<and> py_ne head_hash prev_hash then do {
           p16 \<leftarrow> py_slice16 prev_hash;
           h16 \<leftarrow> py_slice16 head_hash;
           Some (False, IntegrityMismatch p16 h16)
         }
         else do {
           n \<leftarrow> py_len events;
           Some (True, LogIntact n)
         }
       }
   }"

section \<open>The runner: \<^verbatim>\<open>main\<close> (\<^verbatim>\<open>validate_examples.py\<close>, lines 190-292)\<close>

subsection \<open>Ordering and \<^verbatim>\<open>sorted\<close>\<close>

text \<open>
  \<^verbatim>\<open>a < b\<close>: numbers (with the booleans as 1 and 0) compare by value, strings by code
  point, lists by their first differing element; every other pair raises
  \<^verbatim>\<open>TypeError\<close>.
\<close>

fun py_lt :: "json \<Rightarrow> json \<Rightarrow> bool option"
  and py_lt_list :: "json list \<Rightarrow> json list \<Rightarrow> bool option"
where
  "py_lt (JBool x) b =
     (case b of JBool y \<Rightarrow> Some (\<not> x \<and> y) | JInt n \<Rightarrow> Some ((if x then 1 else 0) < n)
      | _ \<Rightarrow> None)"
| "py_lt (JInt m) b =
     (case b of JBool y \<Rightarrow> Some (m < (if y then 1 else 0)) | JInt n \<Rightarrow> Some (m < n)
      | _ \<Rightarrow> None)"
| "py_lt (JStr s) b = (case b of JStr t \<Rightarrow> Some (s < t) | _ \<Rightarrow> None)"
| "py_lt (JArr xs) b = (case b of JArr ys \<Rightarrow> py_lt_list xs ys | _ \<Rightarrow> None)"
| "py_lt JNull b = None"
| "py_lt (JObj kvs) b = None"
| "py_lt_list [] ys = Some (ys \<noteq> [])"
| "py_lt_list (x # xs) ys =
     (case ys of [] \<Rightarrow> Some False
      | y # ys' \<Rightarrow> if py_eq x y then py_lt_list xs ys' else py_lt x y)"

text \<open>
  \<^verbatim>\<open>sorted(xs)\<close> is a stable sort that compares with \<^verbatim>\<open><\<close> only; it is modelled as
  the stable insertion sort, and a comparison that raises makes the call raise.
\<close>

fun py_insort :: "json \<Rightarrow> json list \<Rightarrow> json list option" where
  "py_insort x [] = Some [x]"
| "py_insort x (y # ys) = do {
     lt \<leftarrow> py_lt y x;
     if lt then do { r \<leftarrow> py_insort x ys; Some (y # r) } else Some (x # y # ys)
   }"

fun py_sorted :: "json list \<Rightarrow> json list option" where
  "py_sorted [] = Some []"
| "py_sorted (x # xs) = do { s \<leftarrow> py_sorted xs; py_insort x s }"

subsection \<open>Structural sanity checks (lines 244-263)\<close>

text \<open>The result is \<open>(sanity_ok, printed lines)\<close>.\<close>

definition sanity_checks :: "json \<Rightarrow> bool \<Rightarrow> (bool \<times> message list) option" where
  "sanity_checks log verbose = do {
     events \<leftarrow> py_get log ''events'' (JArr []);
     if \<not> py_truthy events then Some (True, [warn NoEventsInLog])
     else do {
       first \<leftarrow> py_first events;
       first_type \<leftarrow> py_get first ''type'' JNull;
       (ok1, out1) \<leftarrow>
         Some (if py_ne first_type (JStr ''session_start'')
               then (False, [warn FirstNotSessionStart]) else (True, []));
       final \<leftarrow> py_last events;
       final_type \<leftarrow> py_get final ''type'' JNull;
       (ok2, out2) \<leftarrow>
         Some (if py_ne final_type (JStr ''session_end'')
               then (False, out1 @ [warn LastNotSessionEnd]) else (ok1, out1));
       evs \<leftarrow> py_iter events;
       timestamps \<leftarrow> those (map (\<lambda>e. py_get e ''timestamp'' (JStr '''')) evs);
       sorted_timestamps \<leftarrow> py_sorted timestamps;
       if \<not> py_eq_list timestamps sorted_timestamps then
         Some (False, out2 @ [fail NotChronological])
       else if verbose then Some (ok2, out2 @ [ok Chronological])
       else Some (ok2, out2)
     }
   }"

subsection \<open>One file (lines 228-269)\<close>

text \<open>
  \<^verbatim>\<open>validate_against_schema\<close> runs the \<^verbatim>\<open>jsonschema\<close> library on a schema file that
  is not part of the sources; its result \<open>(schema_ok, schema_msgs)\<close> is a parameter.
  The result is \<open>(file_ok, printed lines)\<close>.
\<close>

definition check_file ::
  "bool \<times> message list \<Rightarrow> json \<Rightarrow> bool \<Rightarrow> (bool \<times> message list) option"
where
  "check_file schema_result log verbose = do {
     (schema_ok, schema_msgs) \<leftarrow> Some schema_result;
     let out1 = schema_msgs @
           [if schema_ok then ok SchemaValid else fail (SchemaErrors (length schema_msgs))];
     (chain_ok, chain_msgs) \<leftarrow> verify_hash_chain log verbose;
     out2 \<leftarrow>
       (if chain_ok then do {
          events \<leftarrow> py_get log ''events'' (JArr []);
          n \<leftarrow> py_len events;
          Some (chain_msgs @ [ok (ChainIntact n)])
        }
        else Some chain_msgs);
     (sanity_ok, out3) \<leftarrow> sanity_checks log verbose;
     let file_ok = schema_ok \<and> chain_ok \<and> sanity_ok;
     Some (file_ok, out1 @ out2 @ out3)
   }"

subsection \<open>All files and the exit code (lines 211-226, 264-292)\<close>

text \<open>
  A file either fails to parse (\<^verbatim>\<open>json.JSONDecodeError\<close>: a \<^verbatim>\<open>FAIL\<close> line, and the loop
  goes on) or holds a value. The loop state is \<open>(passed_files, all_messages)\<close>. With
  \<^verbatim>\<open>--fix\<close> the log goes through \<open>add_hash_chain\<close> before it is written back.
\<close>

datatype document = InvalidJSON | Parsed json

datatype verdict = PASS | FAIL

fun main_loop ::
  "(json \<Rightarrow> bool \<times> message list) \<Rightarrow> bool \<Rightarrow> bool \<Rightarrow> document list \<Rightarrow> nat \<times> verdict list
     \<Rightarrow> (nat \<times> verdict list) option"
where
  "main_loop validate verbose fix [] st = Some st"
| "main_loop validate verbose fix (InvalidJSON # rest) (passed_files, all_messages) =
     main_loop validate verbose fix rest (passed_files, all_messages @ [FAIL])"
| "main_loop validate verbose fix (Parsed log # rest) (passed_files, all_messages) = do {
     (file_ok, out) \<leftarrow> check_file (validate log) log verbose;
     written \<leftarrow> (if fix then add_hash_chain log else Some log);
     main_loop validate verbose fix rest
       (if file_ok then (Suc passed_files, all_messages @ [PASS])
        else (passed_files, all_messages @ [FAIL]))
   }"

definition main ::
  "(json \<Rightarrow> bool \<times> message list) \<Rightarrow> bool \<Rightarrow> bool \<Rightarrow> document list \<Rightarrow> (nat \<times> verdict list) option"
where
  "main validate verbose fix examples =
     (if examples = [] then Some (0, [])
      else do {
        (passed_files, all_messages) \<leftarrow> main_loop validate verbose fix examples (0, []);
        Some (if passed_files = length examples then 0 else 1, all_messages)
      })"

section \<open>Structurally valid logs\<close>

text \<open>
  The document shape of the specification, with every field optional as the code reads
  it: a log is a dictionary; \<^verbatim>\<open>session_id\<close>, when present, is a string; \<^verbatim>\<open>events\<close>, when
  present, is a list of dictionaries whose \<^verbatim>\<open>_hash\<close> and \<^verbatim>\<open>timestamp\<close>, when present,
  are strings; \<^verbatim>\<open>_integrity\<close>, when present, is a dictionary whose \<^verbatim>\<open>head_hash\<close>, when
  present, is a string.
\<close>

definition str_or_absent :: "(string \<times> json) list \<Rightarrow> string \<Rightarrow> bool" where
  "str_or_absent kvs k = (case map_of kvs k of None \<Rightarrow> True | Some (JStr _) \<Rightarrow> True | _ \<Rightarrow> False)"

fun valid_event :: "json \<Rightarrow> bool" where
  "valid_event (JObj kvs) = (str_or_absent kvs ''_hash'' \<and> str_or_absent kvs ''timestamp'')"
| "valid_event _ = False"

fun structurally_valid :: "json \<Rightarrow> bool" where
  "structurally_valid (JObj kvs) =
     (str_or_absent kvs ''session_id''
      \<and> (case map_of kvs ''events'' of
            None \<Rightarrow> True | Some (JArr evs) \<Rightarrow> list_all valid_event evs | _ \<Rightarrow> False)
      \<and> (case map_of kvs ''_integrity'' of
            None \<Rightarrow> True | Some (JObj integrity) \<Rightarrow> str_or_absent integrity ''head_hash''
          | _ \<Rightarrow> False))"
| "structurally_valid _ = False"

section \<open>The chain of a structurally valid log\<close>

text \<open>
  On a structurally valid log every value the verifier handles is a string. The
  definitions below restate the replay of the specification on such a log, with
  strings for the hashes; the theorems relate the functions of the code to them.
\<close>

text \<open>The parts of a log: absent means the default of the \<^verbatim>\<open>.get\<close> call.\<close>

fun event_fields :: "json \<Rightarrow> (string \<times> json) list" where
  "event_fields (JObj kvs) = kvs"
| "event_fields _ = []"

definition str_field :: "json \<Rightarrow> string \<Rightarrow> string" where
  "str_field d k = (case map_of (event_fields d) k of Some (JStr s) \<Rightarrow> s | _ \<Rightarrow> [])"

definition event_type :: "json \<Rightarrow> json" where
  "event_type e = (case map_of (event_fields e) ''type'' of None \<Rightarrow> JNull | Some v \<Rightarrow> v)"

definition session_id_of :: "json \<Rightarrow> string" where
  "session_id_of log = str_field log ''session_id''"

definition events_of :: "json \<Rightarrow> json list" where
  "events_of log = (case map_of (event_fields log) ''events'' of Some (JArr evs) \<Rightarrow> evs | _ \<Rightarrow> [])"

definition integrity_of :: "json \<Rightarrow> json" where
  "integrity_of log =
     (case map_of (event_fields log) ''_integrity'' of None \<Rightarrow> JObj [] | Some v \<Rightarrow> v)"

definition head_hash_of :: "json \<Rightarrow> string" where
  "head_hash_of log = str_field (integrity_of log) ''head_hash''"

text \<open>The hash of an event: the digest of the canonical encoding of its fields without
  \<^verbatim>\<open>_hash\<close>, a bar, the previous hash, a bar and the session identifier.\<close>

definition event_digest :: "(string \<times> json) list \<Rightarrow> string \<Rightarrow> string \<Rightarrow> string" where
  "event_digest fields previous_hash session_id =
     hexdigest (sha256 (encode_utf8
       (json_dumps (JObj (filter (\<lambda>kv. fst kv \<noteq> ''_hash'') fields))
          @ ''|'' @ previous_hash @ ''|'' @ session_id)))"

definition expected_of :: "string \<Rightarrow> json \<Rightarrow> string \<Rightarrow> string" where
  "expected_of sid e prev = event_digest (event_fields e) prev sid"

text \<open>An event is unsigned when it carries no (or an empty) \<^verbatim>\<open>_hash\<close>, tampered when
  its stored hash differs from the expected one. The running previous hash advances to
  the stored hash of a signed event and to the expected hash of an unsigned one.\<close>

definition unsigned :: "json \<Rightarrow> bool" where
  "unsigned e = (str_field e ''_hash'' = [])"

definition tampered :: "string \<Rightarrow> json \<Rightarrow> string \<Rightarrow> bool" where
  "tampered sid e prev = (\<not> unsigned e \<and> str_field e ''_hash'' \<noteq> expected_of sid e prev)"

definition next_hash :: "string \<Rightarrow> json \<Rightarrow> string \<Rightarrow> string" where
  "next_hash sid e prev = (if unsigned e then expected_of sid e prev else str_field e ''_hash'')"

fun chain_prev :: "string \<Rightarrow> json list \<Rightarrow> string \<Rightarrow> string" where
  "chain_prev sid [] prev = prev"
| "chain_prev sid (e # es) prev = chain_prev sid es (next_hash sid e prev)"

text \<open>The findings of the replay, event by event, from index \<open>i\<close> on.\<close>

definition event_finding :: "string \<Rightarrow> bool \<Rightarrow> nat \<Rightarrow> json \<Rightarrow> string \<Rightarrow> message list" where
  "event_finding sid verbose i e prev =
     (if unsigned e then [warn (NoHashField i (event_type e))]
      else if tampered sid e prev then
        [fail (HashMismatch i (event_type e) (expected_of sid e prev) (JStr (str_field e ''_hash'')))]
      else if verbose then
        [ok (HashIntact i (event_type e) (JStr (take 16 (str_field e ''_hash''))))]
      else [])"

fun event_findings :: "string \<Rightarrow> bool \<Rightarrow> nat \<Rightarrow> json list \<Rightarrow> string \<Rightarrow> message list" where
  "event_findings sid verbose i [] prev = []"
| "event_findings sid verbose i (e # es) prev =
     event_finding sid verbose i e prev
       @ event_findings sid verbose (Suc i) es (next_hash sid e prev)"

text \<open>The indices of the tampered events, from index \<open>i\<close> on.\<close>

fun tampered_events :: "string \<Rightarrow> nat \<Rightarrow> json list \<Rightarrow> string \<Rightarrow> nat list" where
  "tampered_events sid i [] prev = []"
| "tampered_events sid i (e # es) prev =
     (if tampered sid e prev then [i] else [])
       @ tampered_events sid (Suc i) es (next_hash sid e prev)"

text \<open>The anchor is checked when \<^verbatim>\<open>head_hash\<close> is a non-empty string; it fails when it
  differs from the hash the walk ends with.\<close>

definition anchor_mismatch :: "json \<Rightarrow> bool" where
  "anchor_mismatch log =
     (head_hash_of log \<noteq> []
      \<and> head_hash_of log \<noteq> chain_prev (session_id_of log) (events_of log) [])"

definition anchor_finding :: "json \<Rightarrow> bool \<Rightarrow> message list" where
  "anchor_finding log verbose =
     (if head_hash_of log = [] then [warn NotAnchored]
      else if anchor_mismatch log then
        [fail (HeadHashMismatch (JStr (chain_prev (session_id_of log) (events_of log) []))
                                (JStr (head_hash_of log)))]
      else if verbose then [ok (HeadHashIntact (JStr (take 16 (head_hash_of log))))]
      else [])"

text \<open>The events as \<open>add_hash_chain\<close> signs them, and the hash it ends with.\<close>

fun signed_events :: "string \<Rightarrow> json list \<Rightarrow> string \<Rightarrow> json list" where
  "signed_events sid [] prev = []"
| "signed_events sid (e # es) prev =
     JObj (AList.update ''_hash'' (JStr (expected_of sid e prev)) (event_fields e))
       # signed_events sid es (expected_of sid e prev)"

fun chain_head :: "string \<Rightarrow> json list \<Rightarrow> string \<Rightarrow> string" where
  "chain_head sid [] prev = prev"
| "chain_head sid (e # es) prev = chain_head sid es (expected_of sid e prev)"

text \<open>Reading a report: the marks of its lines, and the events with a mismatch line.\<close>

definition no_failure :: "message list \<Rightarrow> bool" where
  "no_failure msgs = list_all (\<lambda>m. fst m \<noteq> FailMark) msgs"

definition warnings_only :: "message list \<Rightarrow> bool" where
  "warnings_only msgs = list_all (\<lambda>m. fst m = WarnMark) msgs"

fun mismatch_index :: "message \<Rightarrow> nat list" where
  "mismatch_index (FailMark, HashMismatch i ty expected stored) = [i]"
| "mismatch_index _ = []"

definition mismatch_events :: "message list \<Rightarrow> nat list" where
  "mismatch_events msgs = concat (map mismatch_index msgs)"





text \<open>Lowercase hexadecimal digits.\<close>

definition lower_hex_char :: "char \<Rightarrow> bool" where
  "lower_hex_char c = (c \<in> set ''0123456789abcdef'')"

text \<open>A non-decreasing sequence of timestamps.\<close>

definition timestamps_of :: "json \<Rightarrow> string list" where
  "timestamps_of log = map (\<lambda>e. str_field e ''timestamp'') (events_of log)"

definition non_decreasing :: "string list \<Rightarrow> bool" where
  "non_decreasing ts = sorted ts"

text \<open>The first tampered event, as the detail line of \<open>verify_process_log\<close> names it.\<close>

fun first_mismatch :: "string \<Rightarrow> nat \<Rightarrow> json list \<Rightarrow> string \<Rightarrow> detail option" where
  "first_mismatch sid i [] prev = None"
| "first_mismatch sid i (e # es) prev =
     (if tampered sid e prev then
        Some (MismatchAtEvent i (event_type e) (take 16 (expected_of sid e prev))
                (JStr (take 16 (str_field e ''_hash''))))
      else first_mismatch sid (Suc i) es (next_hash sid e prev))"

text \<open>The log as \<open>add_hash_chain\<close> leaves it: the events signed (when the log holds
  them) and the \<^verbatim>\<open>_integrity\<close> block set.\<close>

definition integrity_block :: "json \<Rightarrow> json" where
  "integrity_block log =
     JObj [(''algorithm'', JStr ''SHA-256-CHAIN''),
           (''chain_length'', JInt (int (length (events_of log)))),
           (''head_hash'', JStr (chain_head (session_id_of log) (events_of log) [])),
           (''session_id'', JStr (session_id_of log)),
           (''note'', JStr integrity_note)]"

definition chained_log :: "json \<Rightarrow> json" where
  "chained_log log =
     JObj (AList.update ''_integrity'' (integrity_block log)
       (if map_of (event_fields log) ''events'' = None then event_fields log
        else AList.update ''events''
               (JArr (signed_events (session_id_of log) (events_of log) []))
               (event_fields log)))"

text \<open>The boundary events of a log with events.\<close>

definition starts_with_session_start :: "json \<Rightarrow> bool" where
  "starts_with_session_start log = (event_type (hd (events_of log)) = JStr ''session_start'')"

definition ends_with_session_end :: "json \<Rightarrow> bool" where
  "ends_with_session_end log = (event_type (last (events_of log)) = JStr ''session_end'')"

section \<open>Reading an encoding\<close>

text \<open>Two field lists hold the same fields and values, whatever their order; keys are
  distinct, as in every dictionary.\<close>

definition same_fields :: "(string \<times> json) list \<Rightarrow> (string \<times> json) list \<Rightarrow> bool" where
  "same_fields a b = (distinct (map fst a) \<and> distinct (map fst b) \<and> set a = set b)"

text \<open>The characters of the keys and string values of a value, the characters the
  encoder writes on its own account (brackets, separators, digits, the letters of
  \<^verbatim>\<open>null\<close>, \<^verbatim>\<open>true\<close>, \<^verbatim>\<open>false\<close> and of the escapes, the quote and the backslash), and
  the printable ASCII characters, which go into a string as they are.\<close>

function json_chars :: "json \<Rightarrow> char set" where
  "json_chars JNull = {}"
| "json_chars (JBool b) = {}"
| "json_chars (JInt n) = {}"
| "json_chars (JStr s) = set s"
| "json_chars (JArr xs) = (\<Union>x \<in> set xs. json_chars x)"
| "json_chars (JObj kvs) = (\<Union>kv \<in> set kvs. set (fst kv) \<union> json_chars (snd kv))"
  by pat_completeness auto
termination
proof (relation "measure size")
  show "wf (measure (size :: json \<Rightarrow> nat))" by simp
next
  fix xs :: "json list" and x
  assume "x \<in> set xs"
  then have "size x \<le> size_list size xs"
    by (rule size_list_estimation') simp
  then show "(x, JArr xs) \<in> measure size" by simp
next
  fix kvs :: "(string \<times> json) list" and kv
  assume "kv \<in> set kvs"
  moreover have "size (snd kv) \<le> size_prod (\<lambda>_. 0) size kv"
    by (cases kv) simp
  ultimately have "size (snd kv) \<le> size_list (size_prod (\<lambda>_. 0) size) kvs"
    by (rule size_list_estimation')
  then show "(snd kv, JObj kvs) \<in> measure size" by simp
qed

definition json_syntax_chars :: "char set" where
  "json_syntax_chars = set (''{}[]:,-0123456789abcdeflnrstu'' @ [CHR 0x22, CHR 0x5C])"

definition printable :: "char \<Rightarrow> bool" where
  "printable c = (0x20 \<le> (of_char c :: nat) \<and> (of_char c :: nat) \<le> 0x7E)"

section \<open>Example documents\<close>

text \<open>A session of three events without hashes and without an anchor.\<close>

definition example_events :: "json list" where
  "example_events =
     [JObj [(''type'', JStr ''session_start''), (''timestamp'', JStr ''2026-01-01T10:00:00Z'')],
      JObj [(''type'', JStr ''paste''), (''timestamp'', JStr ''2026-01-01T10:05:00Z''),
            (''chars'', JInt 42)],
      JObj [(''type'', JStr ''session_end''), (''timestamp'', JStr ''2026-01-01T10:09:00Z'')]]"

definition example_log :: json where
  "example_log = JObj [(''session_id'', JStr ''s1''), (''events'', JArr example_events)]"

text \<open>The same session with an anchor whose \<^verbatim>\<open>head_hash\<close> is the empty string, and with
  one whose \<^verbatim>\<open>head_hash\<close> is no digest.\<close>

definition empty_anchor_log :: json where
  "empty_anchor_log =
     JObj [(''session_id'', JStr ''s1''), (''events'', JArr example_events),
           (''_integrity'', JObj [(''head_hash'', JStr [])])]"

definition wrong_anchor_log :: json where
  "wrong_anchor_log =
     JObj [(''session_id'', JStr ''s1''), (''events'', JArr example_events),
           (''_integrity'', JObj [(''head_hash'', JStr ''0000'')])]"

text \<open>A session whose second and third event carry a hash that is no digest, under an
  anchor that matches neither.\<close>

definition forged_log :: json where
  "forged_log =
     JObj [(''session_id'', JStr ''s1''),
           (''events'', JArr
             [JObj [(''type'', JStr ''session_start''), (''timestamp'', JStr ''2026-01-01T10:00:00Z'')],
              JObj [(''type'', JStr ''paste''), (''timestamp'', JStr ''2026-01-01T10:05:00Z''),
                    (''_hash'', JStr ''zz'')],
              JObj [(''type'', JStr ''session_end''), (''timestamp'', JStr ''2026-01-01T10:09:00Z''),
                    (''_hash'', JStr ''yy'')]]),
           (''_integrity'', JObj [(''head_hash'', JStr ''xx'')])]"

text \<open>A session of one event that is neither a start nor an end, and a session whose
  events are out of order.\<close>

definition boundary_log :: json where
  "boundary_log =
     JObj [(''session_id'', JStr ''s1''),
           (''events'', JArr
             [JObj [(''type'', JStr ''paste''), (''timestamp'', JStr ''2026-01-01T10:05:00Z'')]])]"

definition unordered_log :: json where
  "unordered_log =
     JObj [(''session_id'', JStr ''s1''),
           (''events'', JArr
             [JObj [(''type'', JStr ''session_start''), (''timestamp'', JStr ''2026-01-01T10:05:00Z'')],
              JObj [(''type'', JStr ''session_end''), (''timestamp'', JStr ''2026-01-01T10:00:00Z'')]])]"



text \<open>One event with its fields in two orders.\<close>

definition paste_fields :: "(string \<times> json) list" where
  "paste_fields = [(''type'', JStr ''paste''), (''timestamp'', JStr ''2026-01-01T10:05:00Z''),
                   (''chars'', JInt 42)]"

definition paste_fields_reordered :: "(string \<times> json) list" where
  "paste_fields_reordered =
     [(''chars'', JInt 42), (''timestamp'', JStr ''2026-01-01T10:05:00Z''),
      (''type'', JStr ''paste'')]"

section \<open>Basic facts\<close>

subsection \<open>Digests\<close>

lemma compute_event_hash_dict:
  "compute_event_hash (JObj kvs) (JStr p) (JStr s) = Some (event_digest kvs p s)"
  by (simp add: compute_event_hash_def event_digest_def)

lemma vpl_compute_event_hash_eq: "vpl_compute_event_hash = compute_event_hash"
  by (intro ext) (simp add: vpl_compute_event_hash_def compute_event_hash_def)

lemma length_bytes_of_word: "length (bytes_of_word w) = 4"
  by (simp add: bytes_of_word_def)

lemma length_state_bytes: "length (state_bytes s) = 32"
proof -
  obtain a b c d e f g h where "s = (a, b, c, d, e, f, g, h)"
    by (metis surj_pair)
  then show ?thesis by (simp add: length_bytes_of_word)
qed

lemma length_sha256: "length (sha256 m) = 32"
  by (simp add: sha256_def Let_def length_state_bytes)

lemma length_hexdigest: "length (hexdigest bs) = 2 * length bs"
  by (induction bs) (simp_all add: hexdigest_def hex_byte_def)

lemma length_event_digest: "length (event_digest kvs p s) = 64"
  by (simp add: event_digest_def length_hexdigest length_sha256)

lemma event_digest_nonempty: "event_digest kvs p s \<noteq> []"
  using length_event_digest [of kvs p s] by auto

lemma hex_digit_lower: "n < 16 \<Longrightarrow> lower_hex_char (hex_digit n)"
  unfolding hex_digit_def lower_hex_char_def by (rule nth_mem) simp

lemma hex_byte_lower: "list_all lower_hex_char (hex_byte b)"
proof -
  have "unat b < 2 ^ LENGTH(8)" by (rule unsigned_less)
  then have "unat b < 256" by simp
  then have "unat b div 16 < 16" by simp
  then have hi: "lower_hex_char (hex_digit (unat b div 16))"
    by (rule hex_digit_lower)
  have "unat b mod 16 < 16" by simp
  then have lo: "lower_hex_char (hex_digit (unat b mod 16))"
    by (rule hex_digit_lower)
  from hi lo show ?thesis by (simp add: hex_byte_def)
qed

lemma hexdigest_lower: "list_all lower_hex_char (hexdigest bs)"
  by (induction bs) (simp_all add: hexdigest_def hex_byte_lower)

lemma event_digest_lower: "list_all lower_hex_char (event_digest kvs p s)"
  by (simp add: event_digest_def hexdigest_lower)

lemma filter_update_same:
  "filter (\<lambda>kv. fst kv \<noteq> k) (AList.update k v kvs) = filter (\<lambda>kv. fst kv \<noteq> k) kvs"
  by (induction kvs) auto

lemma event_digest_update_hash:
  "event_digest (AList.update ''_hash'' v kvs) p s = event_digest kvs p s"
  by (simp add: event_digest_def filter_update_same)

subsection \<open>Reading a structurally valid log\<close>

lemma valid_event_dict: "valid_event e \<Longrightarrow> e = JObj (event_fields e)"
  by (cases e) simp_all

lemma valid_event_get_hash:
  "valid_event e \<Longrightarrow> py_get e ''_hash'' (JStr []) = Some (JStr (str_field e ''_hash''))"
  by (cases e) (auto simp: str_or_absent_def str_field_def split: option.splits json.splits)

lemma valid_event_get_timestamp:
  "valid_event e \<Longrightarrow> py_get e ''timestamp'' (JStr []) = Some (JStr (str_field e ''timestamp''))"
  by (cases e) (auto simp: str_or_absent_def str_field_def split: option.splits json.splits)

lemma valid_event_get_type: "valid_event e \<Longrightarrow> py_get e ''type'' JNull = Some (event_type e)"
  by (cases e) (simp_all add: event_type_def)

lemma valid_event_hash:
  "valid_event e \<Longrightarrow> compute_event_hash e (JStr p) (JStr sid) = Some (expected_of sid e p)"
  by (cases e) (simp_all add: compute_event_hash_dict expected_of_def)

lemma expected_of_nonempty: "expected_of sid e p \<noteq> []"
  by (simp add: expected_of_def event_digest_nonempty)

lemma valid_log_session_id:
  "structurally_valid log \<Longrightarrow>
     py_get log ''session_id'' (JStr []) = Some (JStr (session_id_of log))"
  by (cases log)
     (auto simp: str_or_absent_def session_id_of_def str_field_def
           split: option.splits json.splits)

lemma valid_log_events:
  "structurally_valid log \<Longrightarrow> py_get log ''events'' (JArr []) = Some (JArr (events_of log))"
  by (cases log) (auto simp: events_of_def split: option.splits json.splits)

lemma valid_log_events_valid: "structurally_valid log \<Longrightarrow> list_all valid_event (events_of log)"
  by (cases log) (auto simp: events_of_def split: option.splits json.splits)

lemma valid_log_integrity:
  "structurally_valid log \<Longrightarrow> py_get log ''_integrity'' (JObj []) = Some (integrity_of log)"
  by (cases log) (auto simp: integrity_of_def split: option.splits)

lemma valid_log_head_hash:
  "structurally_valid log \<Longrightarrow>
     py_get (integrity_of log) ''head_hash'' (JStr []) = Some (JStr (head_hash_of log))"
  by (cases log)
     (auto simp: integrity_of_def head_hash_of_def str_field_def str_or_absent_def
           split: option.splits json.splits)

lemmas valid_log_reads =
  valid_log_session_id valid_log_events valid_log_integrity valid_log_head_hash

subsection \<open>The verifier on a structurally valid log\<close>

lemma py_ne_str [simp]: "py_ne (JStr a) (JStr b) = (a \<noteq> b)"
  by (auto simp: py_ne_def)

lemma py_or_str [simp]: "py_or (JStr a) (JStr b) = JStr (if a = [] then b else a)"
  by (simp add: py_or_def)

lemma verify_events_valid:
  "list_all valid_event evs \<Longrightarrow>
     verify_events (JStr sid) verbose i evs (all_ok, msgs, JStr p) =
       Some (all_ok \<and> tampered_events sid i evs p = [],
             msgs @ event_findings sid verbose i evs p,
             JStr (chain_prev sid evs p))"
proof (induction evs arbitrary: i all_ok msgs p)
  case Nil
  then show ?case by simp
next
  case (Cons e evs)
  then have e: "valid_event e" and evs: "list_all valid_event evs" by simp_all
  note step = valid_event_get_hash [OF e] valid_event_get_type [OF e] valid_event_hash [OF e]
  show ?case
  proof (cases "unsigned e")
    case True
    then show ?thesis
      using Cons.IH [OF evs]
      by (simp add: step unsigned_def tampered_def next_hash_def event_finding_def)
  next
    case False
    then show ?thesis
      using Cons.IH [OF evs]
      by (cases "tampered sid e p")
         (auto simp: step unsigned_def tampered_def next_hash_def event_finding_def)
  qed
qed

lemma verify_hash_chain_valid:
  assumes "structurally_valid log"
  shows "verify_hash_chain log verbose =
           Some (tampered_events (session_id_of log) 0 (events_of log) [] = []
                   \<and> \<not> anchor_mismatch log,
                 event_findings (session_id_of log) verbose 0 (events_of log) []
                   @ anchor_finding log verbose)"
  using assms
  by (simp add: verify_hash_chain_def valid_log_reads [OF assms]
        verify_events_valid [OF valid_log_events_valid [OF assms]]
        anchor_mismatch_def anchor_finding_def)

subsection \<open>Signing a structurally valid log\<close>

lemma add_events_valid:
  "list_all valid_event evs \<Longrightarrow>
     add_events (JStr sid) evs p = Some (signed_events sid evs p, chain_head sid evs p)"
proof (induction evs arbitrary: p)
  case Nil
  then show ?case by simp
next
  case (Cons e evs)
  then have e: "valid_event e" and evs: "list_all valid_event evs" by simp_all
  from e have "py_setitem e ''_hash'' (JStr h) = Some (JObj (AList.update ''_hash'' (JStr h) (event_fields e)))"
    for h by (cases e) simp_all
  then show ?case
    using Cons.IH [OF evs] by (simp add: valid_event_hash [OF e])
qed

lemma signed_event_hash [simp]:
  "str_field (JObj (AList.update ''_hash'' (JStr h) kvs)) ''_hash'' = h"
  by (simp add: str_field_def update_conv')

lemma signed_event_expected [simp]:
  "expected_of sid (JObj (AList.update ''_hash'' v kvs)) q = event_digest kvs q sid"
  by (simp add: expected_of_def event_digest_update_hash)

lemma signed_event_timestamp [simp]:
  "str_field (JObj (AList.update ''_hash'' v kvs)) ''timestamp'' = str_field (JObj kvs) ''timestamp''"
  by (simp add: str_field_def update_conv')

lemma signed_event_type [simp]:
  "event_type (JObj (AList.update ''_hash'' v kvs)) = event_type (JObj kvs)"
  by (simp add: event_type_def update_conv')

lemma str_field_fields [simp]: "str_field (JObj (event_fields e)) k = str_field e k"
  by (simp add: str_field_def)

lemma event_type_fields [simp]: "event_type (JObj (event_fields e)) = event_type e"
  by (simp add: event_type_def)

lemma signed_event_valid:
  "valid_event e \<Longrightarrow> valid_event (JObj (AList.update ''_hash'' (JStr h) (event_fields e)))"
  by (cases e) (auto simp: str_or_absent_def update_conv' split: option.splits json.splits)

lemmas signed_event_facts = signed_event_valid expected_of_def [symmetric]

lemma signed_events_valid:
  "list_all valid_event evs \<Longrightarrow> list_all valid_event (signed_events sid evs p)"
  by (induction evs arbitrary: p) (auto intro: signed_event_valid simp del: valid_event.simps)

lemma length_signed_events [simp]: "length (signed_events sid evs p) = length evs"
  by (induction evs arbitrary: p) simp_all

lemma signed_events_not_tampered: "tampered_events sid i (signed_events sid evs p) p = []"
  by (induction evs arbitrary: i p)
     (simp_all add: tampered_def next_hash_def unsigned_def signed_event_facts expected_of_nonempty)

lemma chain_prev_signed_events: "chain_prev sid (signed_events sid evs p) p = chain_head sid evs p"
  by (induction evs arbitrary: p)
     (simp_all add: next_hash_def unsigned_def signed_event_facts expected_of_nonempty)

lemma chain_head_signed_events: "chain_head sid (signed_events sid evs p) p = chain_head sid evs p"
  by (induction evs arbitrary: p) (simp_all add: signed_event_facts)

lemma signed_events_idem:
  "signed_events sid (signed_events sid evs p) p = signed_events sid evs p"
  by (induction evs arbitrary: p) (simp_all add: signed_event_facts)

lemma timestamps_signed_events:
  "map (\<lambda>e. str_field e ''timestamp'') (signed_events sid evs p)
     = map (\<lambda>e. str_field e ''timestamp'') evs"
  by (induction evs arbitrary: p) (simp_all add: signed_event_facts)

lemma add_hash_chain_valid:
  assumes "structurally_valid log"
  shows "add_hash_chain log = Some (chained_log log)"
proof -
  obtain kvs where log: "log = JObj kvs"
    using assms by (cases log) simp_all
  have store: "store_events log (JArr (events_of log)) evs' =
      Some (JObj (if map_of (event_fields log) ''events'' = None then event_fields log
                  else AList.update ''events'' (JArr evs') (event_fields log)))" for evs'
    by (simp add: store_events_def log)
  show ?thesis
    by (simp add: add_hash_chain_def valid_log_reads [OF assms]
          add_events_valid [OF valid_log_events_valid [OF assms]] store
          chained_log_def integrity_block_def)
qed

lemma chained_log_parts:
  assumes "structurally_valid log"
  shows "session_id_of (chained_log log) = session_id_of log"
    and "events_of (chained_log log) = signed_events (session_id_of log) (events_of log) []"
    and "head_hash_of (chained_log log) = chain_head (session_id_of log) (events_of log) []"
    and "integrity_of (chained_log log) = integrity_block log"
proof -
  obtain kvs where log: "log = JObj kvs"
    using assms by (cases log) simp_all
  show "session_id_of (chained_log log) = session_id_of log"
    by (simp add: chained_log_def session_id_of_def str_field_def update_conv' log)
  show "events_of (chained_log log) = signed_events (session_id_of log) (events_of log) []"
    by (auto simp: chained_log_def events_of_def update_conv' log split: option.splits)
  show "integrity_of (chained_log log) = integrity_block log"
    by (simp add: chained_log_def integrity_of_def update_conv')
  then show "head_hash_of (chained_log log) = chain_head (session_id_of log) (events_of log) []"
    by (simp add: head_hash_of_def str_field_def integrity_block_def)
qed

lemma chained_log_valid:
  assumes "structurally_valid log"
  shows "structurally_valid (chained_log log)"
proof -
  obtain kvs where log: "log = JObj kvs"
    using assms by (cases log) simp_all
  have evs: "list_all valid_event (signed_events (session_id_of log) (events_of log) [])"
    by (rule signed_events_valid [OF valid_log_events_valid [OF assms]])
  show ?thesis
    using assms evs
    by (auto simp: chained_log_def update_conv' log str_or_absent_def integrity_block_def
             split: option.splits json.splits)
qed

lemma chained_log_idem:
  assumes "structurally_valid log"
  shows "chained_log (chained_log log) = chained_log log"
proof -
  let ?evs = "JArr (signed_events (session_id_of log) (events_of log) [])"
  let ?once = "if map_of (event_fields log) ''events'' = None then event_fields log
               else AList.update ''events'' ?evs (event_fields log)"
  let ?fields = "AList.update ''_integrity'' (integrity_block log) ?once"
  have once: "chained_log log = JObj ?fields"
    by (simp add: chained_log_def)
  have blk: "integrity_block (chained_log log) = integrity_block log"
    by (simp add: integrity_block_def chained_log_parts [OF assms] chain_head_signed_events)
  have ev: "signed_events (session_id_of (chained_log log)) (events_of (chained_log log)) []
      = signed_events (session_id_of log) (events_of log) []"
    by (simp add: chained_log_parts [OF assms] signed_events_idem)
  have absent: "map_of ?fields ''events'' = None" if "map_of (event_fields log) ''events'' = None"
    using that by (simp add: update_conv')
  have present: "AList.update ''events'' ?evs ?fields = ?fields"
    if "map_of (event_fields log) ''events'' \<noteq> None"
    by (rule update_triv) (use that in \<open>simp add: update_conv'\<close>)
  have "chained_log (chained_log log) =
      JObj (AList.update ''_integrity'' (integrity_block log)
        (if map_of ?fields ''events'' = None then ?fields
         else AList.update ''events'' ?evs ?fields))"
    unfolding chained_log_def [of "chained_log log"] blk ev
    by (simp add: once)
  also have "\<dots> = JObj (AList.update ''_integrity'' (integrity_block log) ?fields)"
    using absent present by (cases "map_of (event_fields log) ''events'' = None") auto
  also have "\<dots> = JObj ?fields"
    by simp
  finally show ?thesis by (simp add: once)
qed

subsection \<open>The second verifier on a structurally valid log\<close>

lemma first_mismatch_None:
  "first_mismatch sid i evs p = None \<longleftrightarrow> tampered_events sid i evs p = []"
  by (induction evs arbitrary: i p) simp_all

lemma vpl_events_valid:
  "list_all valid_event evs \<Longrightarrow>
     vpl_events (JStr sid) i evs (JStr p) =
       Some (case first_mismatch sid i evs p of
               Some d \<Rightarrow> Inl (False, d)
             | None \<Rightarrow> Inr (JStr (chain_prev sid evs p)))"
proof (induction evs arbitrary: i p)
  case Nil
  then show ?case by simp
next
  case (Cons e evs)
  then have e: "valid_event e" and evs: "list_all valid_event evs" by simp_all
  note step = valid_event_get_hash [OF e] valid_event_get_type [OF e] valid_event_hash [OF e]
  show ?case
  proof (cases "tampered sid e p")
    case True
    then show ?thesis
      by (simp add: step vpl_compute_event_hash_eq tampered_def unsigned_def)
  next
    case False
    then show ?thesis
      using Cons.IH [OF evs]
      by (auto simp: step vpl_compute_event_hash_eq tampered_def unsigned_def next_hash_def
               cong: option.case_cong)
  qed
qed

lemma verify_process_log_valid:
  assumes "structurally_valid log"
  shows "verify_process_log log =
           Some (case first_mismatch (session_id_of log) 0 (events_of log) [] of
                   Some d \<Rightarrow> (False, d)
                 | None \<Rightarrow>
                     if anchor_mismatch log then
                       (False, IntegrityMismatch
                          (JStr (take 16 (chain_prev (session_id_of log) (events_of log) [])))
                          (JStr (take 16 (head_hash_of log))))
                     else (True, LogIntact (length (events_of log))))"
  by (simp add: verify_process_log_def valid_log_reads [OF assms]
        vpl_events_valid [OF valid_log_events_valid [OF assms]] anchor_mismatch_def
        split: option.splits)

subsection \<open>Reading a report\<close>

lemma mismatch_events_Nil [simp]: "mismatch_events [] = []"
  by (simp add: mismatch_events_def)

lemma no_failure_Nil [simp]: "no_failure []"
  by (simp add: no_failure_def)

lemma mismatch_events_append [simp]:
  "mismatch_events (xs @ ys) = mismatch_events xs @ mismatch_events ys"
  by (simp add: mismatch_events_def)



lemma mismatch_events_anchor_finding [simp]: "mismatch_events (anchor_finding log verbose) = []"
  by (simp add: mismatch_events_def anchor_finding_def warn_def fail_def ok_def)

lemma no_failure_append [simp]: "no_failure (xs @ ys) \<longleftrightarrow> no_failure xs \<and> no_failure ys"
  by (simp add: no_failure_def)







subsection \<open>Unsigned events\<close>

lemma chain_prev_unsigned:
  "list_all unsigned evs \<Longrightarrow> chain_prev sid evs p = chain_head sid evs p"
  by (induction evs arbitrary: p) (simp_all add: next_hash_def)

lemma tampered_events_unsigned: "list_all unsigned evs \<Longrightarrow> tampered_events sid i evs p = []"
  by (induction evs arbitrary: i p) (simp_all add: tampered_def)

lemma warnings_only_unsigned:
  "list_all unsigned evs \<Longrightarrow> warnings_only (event_findings sid verbose i evs p)"
  by (induction evs arbitrary: i p)
     (simp_all add: warnings_only_def event_finding_def warn_def)

lemma length_findings_unsigned:
  "list_all unsigned evs \<Longrightarrow> length (event_findings sid verbose i evs p) = length evs"
  by (induction evs arbitrary: i p) (simp_all add: event_finding_def)

lemma chain_prev_append:
  "chain_prev sid (xs @ ys) p = chain_prev sid ys (chain_prev sid xs p)"
  by (induction xs arbitrary: p) simp_all

lemma chain_prev_take_Suc:
  "i < length evs \<Longrightarrow>
     chain_prev sid (take (Suc i) evs) p = next_hash sid (evs ! i) (chain_prev sid (take i evs) p)"
  by (simp add: take_Suc_conv_app_nth chain_prev_append)

subsection \<open>The sanity checks on a structurally valid log\<close>

lemma py_eq_str_right [simp]: "py_eq a (JStr s) = (a = JStr s)"
  by (cases a) auto

lemma py_ne_str_right [simp]: "py_ne a (JStr s) = (a \<noteq> JStr s)"
  by (simp add: py_ne_def)

lemma py_insort_str: "py_insort (JStr x) (map JStr ys) = Some (map JStr (insort x ys))"
  by (induction ys) auto

lemma py_sorted_str: "py_sorted (map JStr ts) = Some (map JStr (sort ts))"
  by (induction ts) (simp_all add: py_insort_str)

lemma py_eq_list_str: "py_eq_list (map JStr ts) (map JStr us) = (ts = us)"
proof (induction ts arbitrary: us)
  case Nil
  then show ?case by auto
next
  case (Cons t ts)
  then show ?case by (cases us) auto
qed

lemma sort_fixed_iff: "(ts = sort ts) = sorted ts"
  by (metis sorted_sort sorted_sort_id)

lemma those_map_Some: "those (map (\<lambda>x. Some (f x)) xs) = Some (map f xs)"
  by (induction xs) simp_all

lemma valid_events_timestamps:
  "list_all valid_event evs \<Longrightarrow>
     those (map (\<lambda>e. py_get e ''timestamp'' (JStr [])) evs)
       = Some (map JStr (map (\<lambda>e. str_field e ''timestamp'') evs))"
  by (induction evs) (simp_all add: valid_event_get_timestamp del: valid_event.simps)

lemma sanity_checks_valid:
  assumes "structurally_valid log"
  shows "sanity_checks log verbose =
     Some (if events_of log = [] then (True, [warn NoEventsInLog])
           else (starts_with_session_start log \<and> ends_with_session_end log
                   \<and> non_decreasing (timestamps_of log),
                 (if starts_with_session_start log then [] else [warn FirstNotSessionStart])
                 @ (if ends_with_session_end log then [] else [warn LastNotSessionEnd])
                 @ (if \<not> non_decreasing (timestamps_of log) then [fail NotChronological]
                    else if verbose then [ok Chronological] else [])))"
proof (cases "events_of log = []")
  case True
  then show ?thesis
    by (simp add: sanity_checks_def valid_log_reads [OF assms])
next
  case False
  define ts where "ts = timestamps_of log"
  have evs: "list_all valid_event (events_of log)"
    by (rule valid_log_events_valid [OF assms])
  have first: "py_first (JArr (events_of log)) = Some (hd (events_of log))"
    using False by (cases "events_of log") simp_all
  have final: "py_last (JArr (events_of log)) = Some (last (events_of log))"
    using False by simp
  have "valid_event (hd (events_of log))" "valid_event (last (events_of log))"
    using False evs by (simp_all add: list_all_iff)
  then have types:
    "py_get (hd (events_of log)) ''type'' JNull = Some (event_type (hd (events_of log)))"
    "py_get (last (events_of log)) ''type'' JNull = Some (event_type (last (events_of log)))"
    by (simp_all add: valid_event_get_type)
  have stamps: "those (map (\<lambda>e. py_get e ''timestamp'' (JStr [])) (events_of log))
      = Some (map JStr ts)"
    unfolding ts_def timestamps_of_def by (rule valid_events_timestamps [OF evs])
  show ?thesis
    using False
    by (simp add: sanity_checks_def valid_log_reads [OF assms] first final types
          stamps py_sorted_str py_eq_list_str sort_fixed_iff
          starts_with_session_start_def ends_with_session_end_def non_decreasing_def
          ts_def [symmetric]
          del: py_first.simps py_last.simps)
qed

lemma check_file_valid:
  assumes "structurally_valid log"
  shows "\<exists>out. check_file (schema_ok, schema_msgs) log verbose =
     Some (schema_ok
             \<and> (tampered_events (session_id_of log) 0 (events_of log) [] = []
                  \<and> \<not> anchor_mismatch log)
             \<and> (events_of log = []
                  \<or> starts_with_session_start log \<and> ends_with_session_end log
                      \<and> non_decreasing (timestamps_of log)),
           out)
     \<and> (\<exists>pre. out = pre @ snd (the (sanity_checks log verbose)))"
  by (auto simp: check_file_def verify_hash_chain_valid [OF assms]
        sanity_checks_valid [OF assms] valid_log_reads [OF assms])

lemma main_single:
  assumes "structurally_valid log"
    and "check_file (validate log) log verbose = Some (file_ok, out)"
  shows "main validate verbose fix [Parsed log] =
           Some (if file_ok then 0 else 1, [if file_ok then PASS else FAIL])"
  using assms
  by (simp add: main_def add_hash_chain_valid [OF assms(1)])

subsection \<open>The two verifiers on any value\<close>

lemma verify_events_stays_failed:
  "verify_events sid verbose i evs (False, msgs, prev) = Some (all_ok, msgs', prev')
     \<Longrightarrow> \<not> all_ok"
proof (induction evs arbitrary: i msgs prev)
  case Nil
  then show ?case by simp
next
  case (Cons e evs)
  then show ?case
    by (auto split: bind_splits if_splits)
qed

lemma verifiers_agree_on_events:
  "vpl_events sid i evs prev = Some r \<Longrightarrow>
   verify_events sid verbose i evs (all_ok, msgs, prev) = Some (all_ok', msgs', prev') \<Longrightarrow>
     (case r of Inl early \<Rightarrow> \<not> fst early \<and> \<not> all_ok'
              | Inr p \<Rightarrow> all_ok' = all_ok \<and> prev' = p)"
proof (induction evs arbitrary: i all_ok msgs prev)
  case Nil
  then show ?case by auto
next
  case (Cons e evs)
  from Cons.prems obtain stored expected where
    stored: "py_get e ''_hash'' (JStr []) = Some stored" and
    expected: "compute_event_hash e prev sid = Some expected"
    by (auto simp: vpl_compute_event_hash_eq split: bind_splits)
  show ?case
  proof (cases "py_truthy stored \<and> py_ne stored (JStr expected)")
    case True
    with Cons.prems(1) stored expected obtain d where r: "r = Inl (False, d)"
      by (auto simp: vpl_compute_event_hash_eq split: bind_splits)
    from True Cons.prems(2) stored expected have "\<not> all_ok'"
      by (auto split: bind_splits dest: verify_events_stays_failed)
    with r show ?thesis by simp
  next
    case False
    with Cons.prems(1) stored expected
    have vpl: "vpl_events sid (Suc i) evs (py_or stored (JStr expected)) = Some r"
      by (auto simp: vpl_compute_event_hash_eq split: bind_splits)
    from False Cons.prems(2) stored expected obtain msgs1 where
      "verify_events sid verbose (Suc i) evs (all_ok, msgs1, py_or stored (JStr expected))
         = Some (all_ok', msgs', prev')"
      by (auto split: bind_splits if_splits)
    from Cons.IH [OF vpl this] show ?thesis .
  qed
qed

lemma verifiers_agree:
  assumes "verify_process_log log = Some (b1, d)"
    and "verify_hash_chain log verbose = Some (b2, msgs)"
  shows "b1 = b2"
proof -
  from assms(1) obtain sid events evs r where
    reads: "py_get log ''session_id'' (JStr []) = Some sid"
      "py_get log ''events'' (JArr []) = Some events" "py_iter events = Some evs" and
    vpl: "vpl_events sid 0 evs (JStr []) = Some r"
    by (auto simp: verify_process_log_def split: bind_splits)
  from assms(2) reads obtain all_ok ms prev where
    walk: "verify_events sid verbose 0 evs (True, [], JStr []) = Some (all_ok, ms, prev)"
    by (auto simp: verify_hash_chain_def split: bind_splits)
  note agree = verifiers_agree_on_events [OF vpl walk]
  show ?thesis
  proof (cases r)
    case (Inl early)
    with agree assms reads vpl walk show ?thesis
      by (auto simp: verify_process_log_def verify_hash_chain_def split: bind_splits if_splits)
  next
    case (Inr p)
    with agree assms reads vpl walk show ?thesis
      by (auto simp: verify_process_log_def verify_hash_chain_def split: bind_splits if_splits)
  qed
qed

subsection \<open>Digests have 64 characters; the example documents\<close>

lemma length_expected_of: "length (expected_of sid e p) = 64"
  by (simp add: expected_of_def length_event_digest)

lemma short_is_no_digest:
  "length s \<noteq> 64 \<Longrightarrow> s \<noteq> expected_of sid e p \<and> expected_of sid e p \<noteq> s"
  using length_expected_of [of sid e p] by auto


lemmas read_log_defs =
  session_id_of_def events_of_def integrity_of_def head_hash_of_def str_field_def
  event_type_def str_or_absent_def unsigned_def timestamps_of_def

lemma example_log_valid: "structurally_valid example_log"
  by (simp add: example_log_def example_events_def str_or_absent_def)

lemma forged_log_valid: "structurally_valid forged_log"
  by (simp add: forged_log_def str_or_absent_def)

subsection \<open>A signed chain of three events with a stale hash on event 1\<close>



subsection \<open>The altered example session\<close>




subsection \<open>The canonical encoding\<close>

lemma delete_is_filter: "AList.delete k kvs = filter (\<lambda>kv. fst kv \<noteq> k) kvs"
  by (induction kvs) auto

lemma filter_same_key:
  "distinct (map fst xs) \<Longrightarrow> x \<in> set xs \<Longrightarrow> filter (\<lambda>y. fst x = fst y) xs = [x]"
proof (induction xs)
  case Nil
  then show ?case by simp
next
  case (Cons a xs)
  show ?case
  proof (cases "x = a")
    case True
    have "filter (\<lambda>y. fst a = fst y) xs = []"
      using Cons.prems(1) by (auto simp: filter_empty_conv)
    with True show ?thesis by simp
  next
    case False
    with Cons.prems have "x \<in> set xs" "fst x \<noteq> fst a"
      by (auto simp: image_iff)
    with Cons show ?thesis by simp
  qed
qed

lemma sort_key_same_fields:
  assumes "same_fields a b"
  shows "sort_key fst a = sort_key fst b"
proof (rule properties_for_sort_key)
  from assms have da: "distinct (map fst a)" and db: "distinct (map fst b)" and eq: "set a = set b"
    by (simp_all add: same_fields_def)
  from da db have "distinct a" "distinct b"
    by (simp_all add: distinct_map)
  with eq have mset: "mset a = mset b"
    by (simp add: set_eq_iff_mset_eq_distinct)
  then show "mset (sort_key fst b) = mset a" by simp
  show "sorted (map fst (sort_key fst b))" by simp
  have dsorted: "distinct (map fst (sort_key fst b))"
    using db by (simp add: distinct_map)
  fix k assume k: "k \<in> set (sort_key fst b)"
  have "filter (\<lambda>x. fst k = fst x) (sort_key fst b) = [k]"
    by (rule filter_same_key [OF dsorted k])
  moreover from k eq have "k \<in> set a" by simp
  then have "filter (\<lambda>x. fst k = fst x) a = [k]"
    by (rule filter_same_key [OF da])
  ultimately show "filter (\<lambda>x. fst k = fst x) (sort_key fst b) = filter (\<lambda>x. fst k = fst x) a"
    by simp
qed

lemma same_fields_filter:
  "same_fields a b \<Longrightarrow> same_fields (filter P a) (filter P b)"
  by (simp add: same_fields_def distinct_map_filter)

lemma json_dumps_same_fields: "same_fields a b \<Longrightarrow> json_dumps (JObj a) = json_dumps (JObj b)"
  by (simp add: sort_key_same_fields)

lemma event_digest_same_fields:
  assumes "same_fields a b"
  shows "event_digest a prev sid = event_digest b prev sid"
proof -
  have "json_dumps (JObj (filter (\<lambda>kv. fst kv \<noteq> ''_hash'') a))
      = json_dumps (JObj (filter (\<lambda>kv. fst kv \<noteq> ''_hash'') b))"
    by (rule json_dumps_same_fields [OF same_fields_filter [OF assms]])
  then show ?thesis
    by (simp add: event_digest_def)
qed

subsection \<open>The characters of an encoding\<close>

lemma hex_digit_syntax: "n < 16 \<Longrightarrow> hex_digit n \<in> json_syntax_chars"
proof -
  assume "n < 16"
  then have "hex_digit n \<in> set ''0123456789abcdef''"
    unfolding hex_digit_def by (intro nth_mem) simp
  then show ?thesis
    unfolding json_syntax_chars_def by auto
qed

lemma escape_char_chars:
  "set (escape_char c) \<subseteq> json_syntax_chars \<union> {d. d = c \<and> printable c}"
proof -
  have "(of_char c :: nat) < 16 * 16" by simp
  then have "(of_char c :: nat) div 16 < 16" by (rule less_mult_imp_div_less)
  then have hi: "hex_digit ((of_char c :: nat) div 16) \<in> json_syntax_chars"
    by (rule hex_digit_syntax)
  have "(of_char c :: nat) mod 16 < 16" by simp
  then have lo: "hex_digit ((of_char c :: nat) mod 16) \<in> json_syntax_chars"
    by (rule hex_digit_syntax)
  have fixed: "CHR 0x5C \<in> json_syntax_chars" "CHR 0x22 \<in> json_syntax_chars"
    "CHR ''n'' \<in> json_syntax_chars" "CHR ''r'' \<in> json_syntax_chars"
    "CHR ''t'' \<in> json_syntax_chars" "CHR ''b'' \<in> json_syntax_chars"
    "CHR ''f'' \<in> json_syntax_chars" "CHR ''u'' \<in> json_syntax_chars"
    "CHR ''0'' \<in> json_syntax_chars"
    by (simp_all add: json_syntax_chars_def)
  show ?thesis
    unfolding escape_char_def using hi lo fixed by (auto simp: printable_def)
qed

lemma encode_string_chars:
  "set (encode_string s) \<subseteq> json_syntax_chars \<union> {d \<in> set s. printable d}"
proof -
  have "CHR 0x22 \<in> json_syntax_chars"
    by (simp add: json_syntax_chars_def)
  then show ?thesis
    unfolding encode_string_def using escape_char_chars by fastforce
qed

lemma digit_char_syntax: "k < 10 \<Longrightarrow> digit_char k \<in> json_syntax_chars"
proof -
  assume "k < 10"
  then have "digit_char k \<in> set ''0123456789''"
    unfolding digit_char_def by (intro nth_mem) simp
  then show ?thesis unfolding json_syntax_chars_def by auto
qed

lemma show_nat_chars: "set (show_nat n) \<subseteq> json_syntax_chars"
proof (induction n rule: show_nat.induct)
  case (1 n)
  show ?case
  proof (cases "n < 10")
    case True
    then show ?thesis
      by (subst show_nat.simps) (simp add: digit_char_syntax)
  next
    case False
    have "digit_char (n mod 10) \<in> json_syntax_chars"
      by (rule digit_char_syntax) simp
    with False 1 show ?thesis
      by (subst show_nat.simps) simp
  qed
qed

lemma show_int_chars: "set (show_int i) \<subseteq> json_syntax_chars"
proof -
  have "CHR ''-'' \<in> json_syntax_chars"
    by (simp add: json_syntax_chars_def)
  then show ?thesis
    unfolding show_int_def using show_nat_chars by auto
qed

lemma join_comma_chars: "set (join_comma xs) \<subseteq> json_syntax_chars \<union> (\<Union>x \<in> set xs. set x)"
proof (induction xs rule: join_comma.induct)
  case (3 x y ys)
  have "CHR '','' \<in> json_syntax_chars"
    by (simp add: json_syntax_chars_def)
  with 3 show ?case by auto
qed simp_all

lemma json_dumps_chars:
  "set (json_dumps v) \<subseteq> json_syntax_chars \<union> {c \<in> json_chars v. printable c}"
proof (induction v rule: json_dumps.induct)
  case 1
  show ?case by (simp add: json_syntax_chars_def)
next
  case (2 b)
  show ?case by (simp add: json_syntax_chars_def)
next
  case (3 n)
  show ?case using show_int_chars by auto
next
  case (4 s)
  show ?case using encode_string_chars by auto
next
  case (5 xs)
  have brackets: "CHR ''['' \<in> json_syntax_chars" "CHR '']'' \<in> json_syntax_chars"
    by (simp_all add: json_syntax_chars_def)
  have "set (join_comma (map json_dumps xs))
      \<subseteq> json_syntax_chars \<union> (\<Union>x \<in> set xs. set (json_dumps x))"
    using join_comma_chars [of "map json_dumps xs"] by auto
  also have "\<dots> \<subseteq> json_syntax_chars \<union> {c \<in> json_chars (JArr xs). printable c}"
    using 5 by fastforce
  finally show ?case using brackets by auto
next
  case (6 kvs)
  let ?member = "\<lambda>kv. encode_string (fst kv) @ '':'' @ json_dumps (snd kv)"
  have braces: "CHR ''{'' \<in> json_syntax_chars" "CHR ''}'' \<in> json_syntax_chars"
    "CHR '':'' \<in> json_syntax_chars"
    by (simp_all add: json_syntax_chars_def)
  have member: "set (?member kv) \<subseteq> json_syntax_chars \<union> {c \<in> json_chars (JObj kvs). printable c}"
    if "kv \<in> set kvs" for kv
  proof -
    from that have "kv \<in> set (sort_key fst kvs)" by simp
    from 6 [OF this] have "set (json_dumps (snd kv))
        \<subseteq> json_syntax_chars \<union> {c \<in> json_chars (snd kv). printable c}" .
    moreover have "set (encode_string (fst kv))
        \<subseteq> json_syntax_chars \<union> {d \<in> set (fst kv). printable d}"
      by (rule encode_string_chars)
    ultimately show ?thesis using that braces by fastforce
  qed
  have "set (join_comma (map ?member (sort_key fst kvs)))
      \<subseteq> json_syntax_chars \<union> (\<Union>kv \<in> set kvs. set (?member kv))"
    using join_comma_chars [of "map ?member (sort_key fst kvs)"] by auto
  also have "\<dots> \<subseteq> json_syntax_chars \<union> {c \<in> json_chars (JObj kvs). printable c}"
    using member by blast
  finally show ?case using braces by auto
qed

lemma whitespace_not_syntax:
  "CHR '' '' \<notin> json_syntax_chars" "CHR 0x09 \<notin> json_syntax_chars"
  "CHR 0x0A \<notin> json_syntax_chars" "CHR 0x0D \<notin> json_syntax_chars"
  by (simp_all add: json_syntax_chars_def)

section \<open>The claims\<close>

subsection \<open>C1\<close>

text \<open>
  C1 (the event hash). For every event with fields \<open>fields\<close>, previous hash \<open>prev\<close> and
  session identifier \<open>sid\<close>, \<open>compute_event_hash\<close> returns the hexadecimal SHA-256 digest
  of the UTF-8 bytes of the encoding of the fields without \<^verbatim>\<open>_hash\<close>, followed by a bar,
  \<open>prev\<close>, a bar and \<open>sid\<close>; the copy in \<^verbatim>\<open>verify_process_log.py\<close> is the same function. The
  digest has 64 characters, all lowercase hexadecimal digits. The encoding of a
  dictionary lists its members sorted by key, separated by bare commas, each key
  separated from its value by a bare colon; it holds no character beyond the encoder's
  own syntax characters (none of them white space) and the printable characters of the
  keys and string values. Two events with the same fields and values, in whatever
  order, have the same hash. The first event of a chain is hashed with the empty
  string as previous hash: that is the \<^verbatim>\<open>_hash\<close> \<open>add_hash_chain\<close> gives it.
\<close>

theorem C1_compute_event_hash:
  "compute_event_hash (JObj fields) (JStr prev) (JStr sid)
     = Some (hexdigest (sha256 (encode_utf8
         (json_dumps (JObj (AList.delete ''_hash'' fields)) @ ''|'' @ prev @ ''|'' @ sid))))
   \<and> vpl_compute_event_hash (JObj fields) (JStr prev) (JStr sid)
       = compute_event_hash (JObj fields) (JStr prev) (JStr sid)
   \<and> (\<exists>h. compute_event_hash (JObj fields) (JStr prev) (JStr sid) = Some h
          \<and> length h = 64 \<and> list_all lower_hex_char h)
   \<and> json_dumps (JObj fields)
       = ''{'' @ join_comma (map (\<lambda>kv. encode_string (fst kv) @ '':'' @ json_dumps (snd kv))
                                 (sort_key fst fields)) @ ''}''
   \<and> sorted (map fst (sort_key fst fields))
   \<and> set (json_dumps (JObj fields))
       \<subseteq> json_syntax_chars \<union> {c \<in> json_chars (JObj fields). printable c}
   \<and> CHR '' '' \<notin> json_syntax_chars \<and> CHR 0x09 \<notin> json_syntax_chars
   \<and> CHR 0x0A \<notin> json_syntax_chars \<and> CHR 0x0D \<notin> json_syntax_chars
   \<and> (same_fields fields fields' \<longrightarrow>
         compute_event_hash (JObj fields) (JStr prev) (JStr sid)
           = compute_event_hash (JObj fields') (JStr prev) (JStr sid))
   \<and> (structurally_valid log \<and> events_of log = e # es \<longrightarrow>
         (\<exists>log' c cs. add_hash_chain log = Some log' \<and> events_of log' = c # cs
            \<and> compute_event_hash e (JStr []) (JStr (session_id_of log))
                = Some (str_field c ''_hash'')))"
proof -
  have formula: "compute_event_hash (JObj fields) (JStr prev) (JStr sid)
      = Some (hexdigest (sha256 (encode_utf8
          (json_dumps (JObj (AList.delete ''_hash'' fields)) @ ''|'' @ prev @ ''|'' @ sid))))"
    by (simp add: compute_event_hash_def delete_is_filter)
  have copy: "vpl_compute_event_hash (JObj fields) (JStr prev) (JStr sid)
      = compute_event_hash (JObj fields) (JStr prev) (JStr sid)"
    by (simp add: vpl_compute_event_hash_eq)
  have digest: "\<exists>h. compute_event_hash (JObj fields) (JStr prev) (JStr sid) = Some h
      \<and> length h = 64 \<and> list_all lower_hex_char h"
    by (simp add: compute_event_hash_dict length_event_digest event_digest_lower)
  have sorted_keys: "json_dumps (JObj fields)
      = ''{'' @ join_comma (map (\<lambda>kv. encode_string (fst kv) @ '':'' @ json_dumps (snd kv))
                                (sort_key fst fields)) @ ''}''"
    "sorted (map fst (sort_key fst fields))"
    by simp_all
  have chars: "set (json_dumps (JObj fields))
      \<subseteq> json_syntax_chars \<union> {c \<in> json_chars (JObj fields). printable c}"
    by (rule json_dumps_chars)
  have order: "same_fields fields fields' \<longrightarrow>
      compute_event_hash (JObj fields) (JStr prev) (JStr sid)
        = compute_event_hash (JObj fields') (JStr prev) (JStr sid)"
    by (simp add: compute_event_hash_dict event_digest_same_fields)
  have first: "structurally_valid log \<and> events_of log = e # es \<longrightarrow>
      (\<exists>log' c cs. add_hash_chain log = Some log' \<and> events_of log' = c # cs
         \<and> compute_event_hash e (JStr []) (JStr (session_id_of log))
             = Some (str_field c ''_hash''))"
  proof
    assume a: "structurally_valid log \<and> events_of log = e # es"
    then have valid: "structurally_valid log" and events: "events_of log = e # es"
      by simp_all
    have "valid_event e"
      using valid_log_events_valid [OF valid] by (simp add: events)
    then have "compute_event_hash e (JStr []) (JStr (session_id_of log))
        = Some (expected_of (session_id_of log) e [])"
      by (rule valid_event_hash)
    moreover have "events_of (chained_log log)
        = JObj (AList.update ''_hash'' (JStr (expected_of (session_id_of log) e []))
                 (event_fields e))
          # signed_events (session_id_of log) es (expected_of (session_id_of log) e [])"
      by (simp add: chained_log_parts [OF valid] events)
    ultimately show "\<exists>log' c cs. add_hash_chain log = Some log' \<and> events_of log' = c # cs
        \<and> compute_event_hash e (JStr []) (JStr (session_id_of log))
            = Some (str_field c ''_hash'')"
      using add_hash_chain_valid [OF valid] by simp
  qed
  from formula copy digest sorted_keys chars whitespace_not_syntax order first
  show ?thesis by blast
qed

theorem C1_witness:
  "same_fields paste_fields paste_fields_reordered
   \<and> compute_event_hash (JObj paste_fields) (JStr []) (JStr ''s1'')
       = compute_event_hash (JObj paste_fields_reordered) (JStr []) (JStr ''s1'')
   \<and> structurally_valid example_log
   \<and> (\<exists>log' c cs. add_hash_chain example_log = Some log' \<and> events_of log' = c # cs
          \<and> compute_event_hash (hd example_events) (JStr []) (JStr ''s1'')
              = Some (str_field c ''_hash''))"
proof -
  have same: "same_fields paste_fields paste_fields_reordered"
    by (auto simp: same_fields_def paste_fields_def paste_fields_reordered_def)
  have events: "structurally_valid example_log
      \<and> events_of example_log = hd example_events # tl example_events"
    by (simp add: example_log_valid) (simp add: example_log_def events_of_def example_events_def)
  have sid: "session_id_of example_log = ''s1''"
    by (simp add: example_log_def read_log_defs)
  note claim = C1_compute_event_hash
    [of paste_fields "[]" "''s1''" paste_fields_reordered example_log
        "hd example_events" "tl example_events"]
  from claim have order: "same_fields paste_fields paste_fields_reordered \<longrightarrow>
      compute_event_hash (JObj paste_fields) (JStr []) (JStr ''s1'')
        = compute_event_hash (JObj paste_fields_reordered) (JStr []) (JStr ''s1'')"
    and first: "structurally_valid example_log
        \<and> events_of example_log = hd example_events # tl example_events \<longrightarrow>
      (\<exists>log' c cs. add_hash_chain example_log = Some log' \<and> events_of log' = c # cs
         \<and> compute_event_hash (hd example_events) (JStr []) (JStr (session_id_of example_log))
             = Some (str_field c ''_hash''))"
    by blast+
  from order same have "compute_event_hash (JObj paste_fields) (JStr []) (JStr ''s1'')
      = compute_event_hash (JObj paste_fields_reordered) (JStr []) (JStr ''s1'')"
    by blast
  moreover from first events have "\<exists>log' c cs. add_hash_chain example_log = Some log'
      \<and> events_of log' = c # cs
      \<and> compute_event_hash (hd example_events) (JStr []) (JStr ''s1'')
          = Some (str_field c ''_hash'')"
    unfolding sid by blast
  ultimately show ?thesis
    using same example_log_valid by blast
qed

subsection \<open>C2\<close>

text \<open>
  C2 (round trip). For every structurally valid log document, \<open>add_hash_chain\<close> returns a
  log, and the chain verifier run on that log returns without raising and reports the
  chain as intact: its aggregate boolean is \<open>True\<close>, in verbose mode or not.
\<close>

theorem C2_add_then_verify_intact:
  assumes "structurally_valid log"
  shows "\<exists>log' msgs. add_hash_chain log = Some log'
           \<and> verify_hash_chain log' verbose = Some (True, msgs)"
proof -
  have valid': "structurally_valid (chained_log log)"
    by (rule chained_log_valid [OF assms])
  have "\<not> anchor_mismatch (chained_log log)"
    by (simp add: anchor_mismatch_def chained_log_parts [OF assms] chain_prev_signed_events)
  then have "verify_hash_chain (chained_log log) verbose =
      Some (True, event_findings (session_id_of (chained_log log)) verbose 0
                    (events_of (chained_log log)) []
                  @ anchor_finding (chained_log log) verbose)"
    by (simp add: verify_hash_chain_valid [OF valid'] chained_log_parts [OF assms]
          signed_events_not_tampered)
  then show ?thesis
    using add_hash_chain_valid [OF assms] by blast
qed

theorem C2_witness:
  "structurally_valid example_log
     \<and> (\<exists>log' msgs. add_hash_chain example_log = Some log'
           \<and> verify_hash_chain log' False = Some (True, msgs))"
proof -
  have valid: "structurally_valid example_log"
    by (simp add: example_log_def example_events_def str_or_absent_def)
  show ?thesis
    using valid C2_add_then_verify_intact [OF valid, of False] by simp
qed

subsection \<open>C3\<close>



subsection \<open>C4\<close>

text \<open>
  C4 (boundary events), as the claim states it, fails in its second half: the two
  boundary checks print with \<^verbatim>\<open>warn\<close> but set \<^verbatim>\<open>sanity_ok = False\<close>, and \<^verbatim>\<open>file_ok\<close> is
  \<^verbatim>\<open>schema_ok and chain_ok and sanity_ok\<close>. The log \<open>boundary_log\<close> conforms to the schema
  (by assumption), its chain verifies, its timestamps are in order and every line of
  its report is a check mark or a warning, yet the file is classified \<^verbatim>\<open>FAIL\<close> and the
  run exits with 1.
\<close>

theorem C4_counterexample:
  "check_file (True, []) boundary_log False
     = Some (False,
             [ok SchemaValid,
              warn (NoHashField 0 (JStr ''paste'')), warn NotAnchored, ok (ChainIntact 1),
              warn FirstNotSessionStart, warn LastNotSessionEnd])
   \<and> main (\<lambda>log. (True, [])) False False [Parsed boundary_log] = Some (1, [FAIL])"
proof -
  have valid: "structurally_valid boundary_log"
    by (simp add: boundary_log_def str_or_absent_def)
  have chain: "verify_hash_chain boundary_log False
      = Some (True, [warn (NoHashField 0 (JStr ''paste'')), warn NotAnchored])"
    unfolding verify_hash_chain_valid [OF valid]
    by (simp add: boundary_log_def read_log_defs tampered_def event_finding_def
          anchor_mismatch_def anchor_finding_def)
  have sanity: "sanity_checks boundary_log False
      = Some (False, [warn FirstNotSessionStart, warn LastNotSessionEnd])"
    unfolding sanity_checks_valid [OF valid]
    by (simp add: boundary_log_def read_log_defs starts_with_session_start_def
          ends_with_session_end_def non_decreasing_def)
  have verdict: "check_file (True, []) boundary_log False
      = Some (False,
              [ok SchemaValid,
               warn (NoHashField 0 (JStr ''paste'')), warn NotAnchored, ok (ChainIntact 1),
               warn FirstNotSessionStart, warn LastNotSessionEnd])"
    by (simp add: check_file_def chain sanity valid_log_events [OF valid])
       (simp add: boundary_log_def events_of_def)
  from main_single [where validate = "\<lambda>log. (True, [])" and log = boundary_log, OF valid this] verdict
  show ?thesis by simp
qed

text \<open>
  C4, amended. For every structurally valid log with a non-empty events sequence whose
  first event is not of type \<^verbatim>\<open>session_start\<close> or whose last event is not of type
  \<^verbatim>\<open>session_end\<close>, the sanity checks print a warning line for each violated boundary (no
  failure line for it) and return \<open>sanity_ok = False\<close>; so the file is classified \<^verbatim>\<open>FAIL\<close>
  and a run over that file exits with 1.
\<close>

theorem C4_boundary_violation_fails_file:
  assumes "structurally_valid log"
    and "events_of log \<noteq> []"
    and "\<not> starts_with_session_start log \<or> \<not> ends_with_session_end log"
  shows "(\<exists>out. sanity_checks log verbose = Some (False, out)
            \<and> (warn FirstNotSessionStart \<in> set out \<longleftrightarrow> \<not> starts_with_session_start log)
            \<and> (warn LastNotSessionEnd \<in> set out \<longleftrightarrow> \<not> ends_with_session_end log)
            \<and> fail FirstNotSessionStart \<notin> set out \<and> fail LastNotSessionEnd \<notin> set out)
     \<and> (\<exists>out. check_file (schema_ok, schema_msgs) log verbose = Some (False, out))
     \<and> main validate verbose fix [Parsed log] = Some (1, [FAIL])"
proof -
  have sanity: "\<exists>out. sanity_checks log verbose = Some (False, out)
      \<and> (warn FirstNotSessionStart \<in> set out \<longleftrightarrow> \<not> starts_with_session_start log)
      \<and> (warn LastNotSessionEnd \<in> set out \<longleftrightarrow> \<not> ends_with_session_end log)
      \<and> fail FirstNotSessionStart \<notin> set out \<and> fail LastNotSessionEnd \<notin> set out"
    using assms(2,3)
    by (auto simp: sanity_checks_valid [OF assms(1)] warn_def fail_def ok_def)
  have verdict: "\<exists>out. check_file sr log verbose = Some (False, out)" for sr
    using check_file_valid [OF assms(1), of "fst sr" "snd sr" verbose] assms(2,3) by auto
  obtain out where "check_file (validate log) log verbose = Some (False, out)"
    using verdict by blast
  from main_single [where validate = validate and log = log, OF assms(1) this]
  have "main validate verbose fix [Parsed log] = Some (1, [FAIL])"
    by simp
  with sanity verdict show ?thesis by blast
qed

theorem C4_witness:
  "structurally_valid boundary_log
     \<and> events_of boundary_log \<noteq> []
     \<and> \<not> starts_with_session_start boundary_log
     \<and> (\<exists>out. sanity_checks boundary_log False = Some (False, out))
     \<and> main (\<lambda>log. (True, [])) False False [Parsed boundary_log] = Some (1, [FAIL])"
proof -
  have valid: "structurally_valid boundary_log"
    by (simp add: boundary_log_def str_or_absent_def)
  have events: "events_of boundary_log \<noteq> []"
    by (simp add: boundary_log_def events_of_def)
  have start: "\<not> starts_with_session_start boundary_log"
    by (simp add: boundary_log_def starts_with_session_start_def read_log_defs)
  then have boundary: "\<not> starts_with_session_start boundary_log \<or> \<not> ends_with_session_end boundary_log"
    by simp
  show ?thesis
    using C4_boundary_violation_fails_file [OF valid events boundary] valid events start
    by blast
qed

subsection \<open>C5\<close>

text \<open>
  C5 (idempotence). For every structurally valid log document, \<open>add_hash_chain\<close> applied
  to its own result returns that result unchanged: the whole document, so every
  \<^verbatim>\<open>_hash\<close> and the \<^verbatim>\<open>_integrity\<close> block, is identical after the second application. The
  reason is that \<open>compute_event_hash\<close> does not read \<^verbatim>\<open>_hash\<close>: setting that field of an
  event to any value leaves the hash of the event as it was.
\<close>

theorem C5_add_hash_chain_idempotent:
  assumes "structurally_valid log"
  shows "(\<exists>log'. add_hash_chain log = Some log' \<and> add_hash_chain log' = Some log')
           \<and> compute_event_hash (JObj (AList.update ''_hash'' v fields)) prev sid
               = compute_event_hash (JObj fields) prev sid"
proof -
  have "add_hash_chain (chained_log log) = Some (chained_log log)"
    using add_hash_chain_valid [OF chained_log_valid [OF assms]]
    by (simp add: chained_log_idem [OF assms])
  moreover have "compute_event_hash (JObj (AList.update ''_hash'' v fields)) prev sid
      = compute_event_hash (JObj fields) prev sid"
    by (simp add: compute_event_hash_def filter_update_same)
  ultimately show ?thesis
    using add_hash_chain_valid [OF assms] by blast
qed

theorem C5_witness:
  "structurally_valid example_log
     \<and> (\<exists>log'. add_hash_chain example_log = Some log' \<and> add_hash_chain log' = Some log')"
proof -
  have valid: "structurally_valid example_log"
    by (simp add: example_log_def example_events_def str_or_absent_def)
  show ?thesis
    using valid C5_add_hash_chain_idempotent [OF valid] by simp
qed

subsection \<open>C6\<close>

text \<open>
  C6 (unsigned tolerance). For every structurally valid log in which no event has a
  \<^verbatim>\<open>_hash\<close> field and that has no \<^verbatim>\<open>_integrity\<close> block, the chain verifier returns the
  aggregate \<open>True\<close> and a report of warnings only. During the walk the running previous
  hash advances to the expected hash of each event: if the first \<open>i\<close> events leave the
  walk with the previous hash \<open>prev\<close>, then \<open>compute_event_hash\<close> returns a hash \<open>h\<close> for
  event \<open>i\<close> and \<open>prev\<close>, and the first \<open>i + 1\<close> events leave the walk with \<open>h\<close>.
\<close>

theorem C6_unsigned_log_verifies:
  assumes "structurally_valid log"
    and "list_all (\<lambda>e. map_of (event_fields e) ''_hash'' = None) (events_of log)"
    and "map_of (event_fields log) ''_integrity'' = None"
  shows "(\<exists>msgs. verify_hash_chain log verbose = Some (True, msgs) \<and> warnings_only msgs)
     \<and> (\<forall>i < length (events_of log). \<exists>ms prev h ms'.
           verify_events (JStr (session_id_of log)) verbose 0 (take i (events_of log))
             (True, [], JStr []) = Some (True, ms, JStr prev)
           \<and> compute_event_hash (events_of log ! i) (JStr prev) (JStr (session_id_of log)) = Some h
           \<and> verify_events (JStr (session_id_of log)) verbose 0 (take (Suc i) (events_of log))
               (True, [], JStr []) = Some (True, ms', JStr h))"
proof -
  let ?sid = "session_id_of log" and ?evs = "events_of log"
  have valid: "list_all valid_event ?evs"
    by (rule valid_log_events_valid [OF assms(1)])
  have unsigned: "list_all unsigned ?evs"
    using assms(2) by (simp add: list_all_iff unsigned_def str_field_def)
  have no_anchor: "head_hash_of log = []"
    using assms(3) by (simp add: head_hash_of_def integrity_of_def str_field_def)
  have "verify_hash_chain log verbose =
      Some (True, event_findings ?sid verbose 0 ?evs [] @ [warn NotAnchored])"
    by (simp add: verify_hash_chain_valid [OF assms(1)] tampered_events_unsigned [OF unsigned]
          anchor_mismatch_def anchor_finding_def no_anchor)
  moreover have "warnings_only (event_findings ?sid verbose 0 ?evs [] @ [warn NotAnchored])"
    using warnings_only_unsigned [OF unsigned, of ?sid verbose 0 "[]"]
    by (simp add: warnings_only_def warn_def)
  ultimately have first: "\<exists>msgs. verify_hash_chain log verbose = Some (True, msgs) \<and> warnings_only msgs"
    by blast
  have walk: "\<exists>ms prev h ms'.
      verify_events (JStr ?sid) verbose 0 (take i ?evs) (True, [], JStr []) = Some (True, ms, JStr prev)
      \<and> compute_event_hash (?evs ! i) (JStr prev) (JStr ?sid) = Some h
      \<and> verify_events (JStr ?sid) verbose 0 (take (Suc i) ?evs) (True, [], JStr [])
          = Some (True, ms', JStr h)"
    if i: "i < length ?evs" for i
  proof -
    have prefix: "list_all valid_event (take n ?evs)" "list_all unsigned (take n ?evs)" for n
      using valid unsigned by (auto simp: list_all_iff dest: in_set_takeD)
    have e: "valid_event (?evs ! i)" "unsigned (?evs ! i)"
      using valid unsigned i by (simp_all add: list_all_iff)
    let ?prev = "chain_prev ?sid (take i ?evs) []"
    have "verify_events (JStr ?sid) verbose 0 (take i ?evs) (True, [], JStr [])
        = Some (True, event_findings ?sid verbose 0 (take i ?evs) [], JStr ?prev)"
      by (simp add: verify_events_valid [OF prefix(1)] tampered_events_unsigned [OF prefix(2)])
    moreover have "compute_event_hash (?evs ! i) (JStr ?prev) (JStr ?sid)
        = Some (expected_of ?sid (?evs ! i) ?prev)"
      by (rule valid_event_hash [OF e(1)])
    moreover have "verify_events (JStr ?sid) verbose 0 (take (Suc i) ?evs) (True, [], JStr [])
        = Some (True, event_findings ?sid verbose 0 (take (Suc i) ?evs) [],
                JStr (expected_of ?sid (?evs ! i) ?prev))"
      using e(2)
      by (simp add: verify_events_valid [OF prefix(1)] tampered_events_unsigned [OF prefix(2)]
            chain_prev_take_Suc [OF i] next_hash_def)
    ultimately show ?thesis by blast
  qed
  from first walk show ?thesis by blast
qed

theorem C6_witness:
  "structurally_valid example_log
     \<and> list_all (\<lambda>e. map_of (event_fields e) ''_hash'' = None) (events_of example_log)
     \<and> map_of (event_fields example_log) ''_integrity'' = None
     \<and> (\<exists>msgs. verify_hash_chain example_log False = Some (True, msgs) \<and> warnings_only msgs)"
proof -
  have events: "list_all (\<lambda>e. map_of (event_fields e) ''_hash'' = None) (events_of example_log)"
    by (simp add: example_log_def example_events_def events_of_def)
  have anchor: "map_of (event_fields example_log) ''_integrity'' = None"
    by (simp add: example_log_def)
  show ?thesis
    using C6_unsigned_log_verifies [OF example_log_valid events anchor, of False]
      example_log_valid events anchor
    by blast
qed

subsection \<open>C7\<close>

text \<open>
  C7 (anchor), as the claim states it, fails where \<^verbatim>\<open>_integrity.head_hash\<close> is present
  but empty: \<^verbatim>\<open>if head_hash:\<close> treats the empty string as no anchor. In
  \<open>empty_anchor_log\<close> the field is present and differs from the hash the walk ends with
  (a digest, which is never empty), and the verifier returns \<open>True\<close> with warnings only.
\<close>

theorem C7_counterexample:
  "map_of (event_fields (integrity_of empty_anchor_log)) ''head_hash'' = Some (JStr [])
     \<and> verify_events (JStr ''s1'') False 0 (events_of empty_anchor_log) (True, [], JStr [])
         = Some (True,
                 [warn (NoHashField 0 (JStr ''session_start'')),
                  warn (NoHashField 1 (JStr ''paste'')),
                  warn (NoHashField 2 (JStr ''session_end''))],
                 JStr (chain_prev ''s1'' example_events []))
     \<and> py_ne (JStr []) (JStr (chain_prev ''s1'' example_events []))
     \<and> verify_hash_chain empty_anchor_log False
         = Some (True,
                 [warn (NoHashField 0 (JStr ''session_start'')),
                  warn (NoHashField 1 (JStr ''paste'')),
                  warn (NoHashField 2 (JStr ''session_end'')),
                  warn NotAnchored])"
proof -
  have valid: "structurally_valid empty_anchor_log"
    by (simp add: empty_anchor_log_def example_events_def str_or_absent_def)
  have events: "events_of empty_anchor_log = example_events"
    by (simp add: empty_anchor_log_def events_of_def)
  have sid: "session_id_of empty_anchor_log = ''s1''"
    by (simp add: empty_anchor_log_def read_log_defs)
  have events_valid: "list_all valid_event example_events"
    using valid_log_events_valid [OF valid] by (simp add: events)
  have findings: "event_findings ''s1'' False 0 example_events [] =
      [warn (NoHashField 0 (JStr ''session_start'')),
       warn (NoHashField 1 (JStr ''paste'')),
       warn (NoHashField 2 (JStr ''session_end''))]"
    by (simp add: example_events_def event_finding_def read_log_defs numeral_2_eq_2)
  have untampered: "tampered_events ''s1'' 0 example_events [] = []"
    by (simp add: example_events_def tampered_def read_log_defs)
  have ends: "chain_prev ''s1'' example_events [] \<noteq> []"
    by (simp add: example_events_def next_hash_def read_log_defs expected_of_nonempty)
  have head: "head_hash_of empty_anchor_log = []"
    by (simp add: empty_anchor_log_def read_log_defs)
  have "map_of (event_fields (integrity_of empty_anchor_log)) ''head_hash'' = Some (JStr [])"
    by (simp add: empty_anchor_log_def integrity_of_def)
  moreover have "verify_events (JStr ''s1'') False 0 (events_of empty_anchor_log) (True, [], JStr [])
      = Some (True,
              [warn (NoHashField 0 (JStr ''session_start'')),
               warn (NoHashField 1 (JStr ''paste'')),
               warn (NoHashField 2 (JStr ''session_end''))],
              JStr (chain_prev ''s1'' example_events []))"
    by (simp add: events verify_events_valid [OF events_valid] findings untampered)
  moreover have "py_ne (JStr []) (JStr (chain_prev ''s1'' example_events []))"
    using ends by auto
  moreover have "verify_hash_chain empty_anchor_log False
      = Some (True,
              [warn (NoHashField 0 (JStr ''session_start'')),
               warn (NoHashField 1 (JStr ''paste'')),
               warn (NoHashField 2 (JStr ''session_end'')),
               warn NotAnchored])"
    by (simp add: verify_hash_chain_valid [OF valid] events sid findings untampered
          anchor_mismatch_def anchor_finding_def head)
  ultimately show ?thesis by blast
qed

text \<open>
  C7, amended. Let a structurally valid log be given, and let the walk over its events
  end with the report \<open>ms\<close> and the running previous hash \<open>prev\<close>. If
  \<^verbatim>\<open>_integrity.head_hash\<close> is a non-empty string that differs from \<open>prev\<close>, the verifier
  returns \<open>False\<close> and adds the anchor mismatch line to \<open>ms\<close>, a failure of its own kind,
  also when the walk found every event intact. If the anchor is absent (no
  \<^verbatim>\<open>_integrity\<close>, no \<^verbatim>\<open>head_hash\<close> in it, or an empty one), the verifier adds only the
  warning that the chain is not anchored and returns what the walk found.
\<close>

theorem C7_anchor_mismatch_fails:
  assumes "structurally_valid log"
  shows "\<exists>all_ok ms prev.
      verify_events (JStr (session_id_of log)) verbose 0 (events_of log) (True, [], JStr [])
        = Some (all_ok, ms, JStr prev)
      \<and> (head_hash_of log \<noteq> [] \<and> head_hash_of log \<noteq> prev \<longrightarrow>
            verify_hash_chain log verbose
              = Some (False, ms @ [fail (HeadHashMismatch (JStr prev) (JStr (head_hash_of log)))]))
      \<and> (head_hash_of log = [] \<longrightarrow>
            verify_hash_chain log verbose = Some (all_ok, ms @ [warn NotAnchored]))"
proof -
  let ?sid = "session_id_of log" and ?evs = "events_of log"
  have "verify_events (JStr ?sid) verbose 0 ?evs (True, [], JStr [])
      = Some (tampered_events ?sid 0 ?evs [] = [], event_findings ?sid verbose 0 ?evs [],
              JStr (chain_prev ?sid ?evs []))"
    by (simp add: verify_events_valid [OF valid_log_events_valid [OF assms]])
  moreover have "head_hash_of log \<noteq> [] \<and> head_hash_of log \<noteq> chain_prev ?sid ?evs [] \<longrightarrow>
      verify_hash_chain log verbose
        = Some (False, event_findings ?sid verbose 0 ?evs []
                  @ [fail (HeadHashMismatch (JStr (chain_prev ?sid ?evs []))
                             (JStr (head_hash_of log)))])"
    by (simp add: verify_hash_chain_valid [OF assms] anchor_mismatch_def anchor_finding_def)
  moreover have "head_hash_of log = [] \<longrightarrow>
      verify_hash_chain log verbose
        = Some (tampered_events ?sid 0 ?evs [] = [],
                event_findings ?sid verbose 0 ?evs [] @ [warn NotAnchored])"
    by (simp add: verify_hash_chain_valid [OF assms] anchor_mismatch_def anchor_finding_def)
  ultimately show ?thesis by blast
qed

theorem C7_witness:
  "structurally_valid wrong_anchor_log
     \<and> head_hash_of wrong_anchor_log = ''0000''
     \<and> tampered_events (session_id_of wrong_anchor_log) 0 (events_of wrong_anchor_log) [] = []
     \<and> (\<exists>ms prev. verify_hash_chain wrong_anchor_log False
           = Some (False, ms @ [fail (HeadHashMismatch (JStr prev) (JStr ''0000''))]))"
proof -
  have valid: "structurally_valid wrong_anchor_log"
    by (simp add: wrong_anchor_log_def example_events_def str_or_absent_def)
  have head: "head_hash_of wrong_anchor_log = ''0000''"
    by (simp add: wrong_anchor_log_def read_log_defs)
  have untampered:
    "tampered_events (session_id_of wrong_anchor_log) 0 (events_of wrong_anchor_log) [] = []"
    by (simp add: wrong_anchor_log_def example_events_def tampered_def read_log_defs)
  obtain all_ok ms prev where
    walk: "verify_events (JStr (session_id_of wrong_anchor_log)) False 0
        (events_of wrong_anchor_log) (True, [], JStr []) = Some (all_ok, ms, JStr prev)" and
    fails: "head_hash_of wrong_anchor_log \<noteq> [] \<and> head_hash_of wrong_anchor_log \<noteq> prev \<longrightarrow>
        verify_hash_chain wrong_anchor_log False
          = Some (False, ms @ [fail (HeadHashMismatch (JStr prev)
                                       (JStr (head_hash_of wrong_anchor_log)))])"
    using C7_anchor_mismatch_fails [OF valid, of False] by blast
  have "prev = chain_prev (session_id_of wrong_anchor_log) (events_of wrong_anchor_log) []"
    using walk by (simp add: verify_events_valid [OF valid_log_events_valid [OF valid]])
  then have "prev \<noteq> ''0000''"
    by (simp add: wrong_anchor_log_def example_events_def next_hash_def read_log_defs
          short_is_no_digest)
  with fails head valid untampered show ?thesis
    by auto
qed

subsection \<open>C8\<close>




subsection \<open>C9\<close>

text \<open>
  C9 (chronological order). For every structurally valid log with a non-empty events
  sequence whose timestamps, taken in order, are not non-decreasing, the sanity checks
  return \<open>sanity_ok = False\<close> with the failure line for the order; so the file is
  classified \<^verbatim>\<open>FAIL\<close> and a run over that file exits with 1, whatever the schema check
  and the chain verification found.
\<close>

theorem C9_unordered_timestamps_fail:
  assumes "structurally_valid log"
    and "events_of log \<noteq> []"
    and "\<not> non_decreasing (timestamps_of log)"
  shows "(\<exists>out. sanity_checks log verbose = Some (False, out) \<and> fail NotChronological \<in> set out)
     \<and> (\<exists>out. check_file (schema_ok, schema_msgs) log verbose = Some (False, out)
           \<and> fail NotChronological \<in> set out)
     \<and> main validate verbose fix [Parsed log] = Some (1, [FAIL])"
proof -
  have sanity: "\<exists>out. sanity_checks log verbose = Some (False, out) \<and> fail NotChronological \<in> set out"
    using assms(2,3) by (simp add: sanity_checks_valid [OF assms(1)])
  have verdict: "\<exists>out. check_file sr log verbose = Some (False, out) \<and> fail NotChronological \<in> set out"
    for sr
  proof -
    obtain out where out: "check_file (fst sr, snd sr) log verbose =
        Some (fst sr
              \<and> (tampered_events (session_id_of log) 0 (events_of log) [] = []
                   \<and> \<not> anchor_mismatch log)
              \<and> (events_of log = []
                   \<or> starts_with_session_start log \<and> ends_with_session_end log
                       \<and> non_decreasing (timestamps_of log)),
              out)"
      and "\<exists>pre. out = pre @ snd (the (sanity_checks log verbose))"
      using check_file_valid [OF assms(1), of "fst sr" "snd sr" verbose] by blast
    with sanity assms(2,3) show ?thesis by auto
  qed
  obtain out where "check_file (validate log) log verbose = Some (False, out)"
    using verdict by blast
  from main_single [where validate = validate and log = log, OF assms(1) this]
  have "main validate verbose fix [Parsed log] = Some (1, [FAIL])"
    by simp
  with sanity verdict show ?thesis by blast
qed

theorem C9_witness:
  "structurally_valid unordered_log
     \<and> events_of unordered_log \<noteq> []
     \<and> \<not> non_decreasing (timestamps_of unordered_log)
     \<and> main (\<lambda>log. (True, [])) False False [Parsed unordered_log] = Some (1, [FAIL])"
proof -
  have valid: "structurally_valid unordered_log"
    by (simp add: unordered_log_def str_or_absent_def)
  have events: "events_of unordered_log \<noteq> []"
    by (simp add: unordered_log_def events_of_def)
  have stamps: "timestamps_of unordered_log = [''2026-01-01T10:05:00Z'', ''2026-01-01T10:00:00Z'']"
    by (simp add: unordered_log_def read_log_defs)
  have "\<not> (''2026-01-01T10:05:00Z'' \<le> ''2026-01-01T10:00:00Z'')"
    by (simp add: less_eq_char_def)
  then have order: "\<not> non_decreasing (timestamps_of unordered_log)"
    by (simp add: stamps non_decreasing_def)
  show ?thesis
    using C9_unordered_timestamps_fail [OF valid events order] valid events order
    by blast
qed

subsection \<open>C10\<close>

text \<open>
  C10 (the two verifiers agree). For every log, whenever \<open>verify_process_log\<close> and
  \<open>verify_hash_chain\<close> both return, they return the same boolean, although the former
  stops at the first mismatch and the latter walks all events; and on a structurally
  valid log both do return.
\<close>

theorem C10_verifiers_agree:
  "(verify_process_log log = Some (b1, d) \<and> verify_hash_chain log verbose = Some (b2, msgs)
      \<longrightarrow> b1 = b2)
   \<and> (structurally_valid log \<longrightarrow>
        (\<exists>b d' msgs'. verify_process_log log = Some (b, d')
           \<and> verify_hash_chain log verbose = Some (b, msgs')))"
proof (intro conjI impI)
  assume "verify_process_log log = Some (b1, d) \<and> verify_hash_chain log verbose = Some (b2, msgs)"
  then show "b1 = b2"
    using verifiers_agree by blast
next
  assume valid: "structurally_valid log"
  obtain b d' where vpl: "verify_process_log log = Some (b, d')"
    using verify_process_log_valid [OF valid] by (cases "the (verify_process_log log)") simp
  obtain b' msgs' where vhc: "verify_hash_chain log verbose = Some (b', msgs')"
    using verify_hash_chain_valid [OF valid] by blast
  from verifiers_agree [OF vpl vhc] vpl vhc
  show "\<exists>b d' msgs'. verify_process_log log = Some (b, d')
      \<and> verify_hash_chain log verbose = Some (b, msgs')"
    by blast
qed

theorem C10_witness:
  "structurally_valid forged_log
     \<and> (\<exists>d msgs. verify_process_log forged_log = Some (False, d)
           \<and> verify_hash_chain forged_log False = Some (False, msgs))"
proof -
  obtain b d msgs where both: "verify_process_log forged_log = Some (b, d)"
      "verify_hash_chain forged_log False = Some (b, msgs)"
    using C10_verifiers_agree [of forged_log _ _ False] forged_log_valid by blast
  have "tampered_events (session_id_of forged_log) 0 (events_of forged_log) [] \<noteq> []"
    by (simp add: forged_log_def read_log_defs tampered_def next_hash_def short_is_no_digest)
  then have "\<not> b"
    using both(2) by (simp add: verify_hash_chain_valid [OF forged_log_valid])
  with both forged_log_valid show ?thesis by auto
qed

end
